theory Spec2Isabelle
  imports Main "HOL-Library.Sublist"
begin

section \<open>Data model of the rule engine (src/main.ts)\<close>

text \<open>
  The rule as the plugin stores it (interface \<open>MoveRule\<close>). The fields \<open>id\<close> and
  \<open>name\<close> carry a prefix, since \<open>id\<close> is the identity function of HOL and \<open>name\<close> is
  the field of a tree entry below.
\<close>

record MoveRule =
  rule_id :: string
  rule_name :: string
  sourcePath :: string
  filePattern :: string
  targetPath :: string
  enabled :: bool

record FileMoverSettings =
  rules :: "MoveRule list"
  showMoveNotification :: bool

text \<open>
  A handle of the host's file tree (\<open>TAbstractFile\<close>): the code only reads \<open>name\<close> and
  \<open>path\<close> of a handle and asks whether it is an instance of \<open>TFolder\<close>.
\<close>

datatype TAbstractFile =
    TFile (name: string) (path: string)
  | TFolder (name: string) (path: string)

text \<open>What a JavaScript call can throw.\<close>

datatype js_error = SyntaxError string | Error string

text \<open>
  The texts the plugin shows or logs, one constructor for each template string of the
  source, with the interpolated values as arguments.
\<close>

datatype message =
    RuleDisabled string
  | SourceFolderNotFound string
  | FailedToCreateTargetFolder string
  | InvalidRegularExpression string
  | MovedFile string string
  | FailedToMoveFile string

text \<open>
  Everything that passes between the engine and the outside, in the order it happens:
  notices, console lines, the calls into the host that mutate the tree or test a name,
  and the outcome of a rename when its promise settles.
\<close>

datatype effect =
    Notice message
  | ConsoleLog message
  | ConsoleError message js_error
  | ConsoleErrorObject js_error
  | CallCreateFolder string
  | CallRename TAbstractFile string
  | CallTest TAbstractFile
  | RenameFulfilled TAbstractFile string
  | RenameRejected TAbstractFile string js_error

text \<open>
  The promise of a rename that has been called: the position of its call in the trace
  (which tells two promises apart), the handle and the new path.
\<close>

type_synonym promise = "nat \<times> TAbstractFile \<times> string"

text \<open>
  The world: the host's tree, the trace, and the renames that have been called and have
  not settled yet.
\<close>

record 'v world =
  vault :: 'v
  trace :: "effect list"
  inflight :: "promise list"

text \<open>
  The host (Obsidian's vault, the JavaScript \<open>RegExp\<close> object and the event loop) is not
  part of the repository: its operations are parameters. \<open>'v\<close> is the state of the file
  tree, \<open>'r\<close> a compiled regular expression. A call that can reject or throw returns a
  sum, \<open>Inl\<close> the error; a failed call leaves the tree as it was. A rename that succeeds
  returns the new tree and the handle as the host has updated it. A rename takes effect
  when its promise settles, not when it is called (it is file-system work): \<open>completes\<close>
  is the host's schedule, the renames in flight that complete, and in which order, while
  the engine waits at a \<open>Promise.all\<close> for the promises given as second argument.
\<close>

record ('v, 'r) host =
  getAbstractFileByPath :: "'v \<Rightarrow> string \<Rightarrow> TAbstractFile option"
  createFolder :: "'v \<Rightarrow> string \<Rightarrow> js_error + 'v"
  children :: "'v \<Rightarrow> TAbstractFile \<Rightarrow> TAbstractFile list"
  rename :: "'v \<Rightarrow> TAbstractFile \<Rightarrow> string \<Rightarrow> js_error + 'v \<times> TAbstractFile"
  RegExp :: "string \<Rightarrow> js_error + 'r"
  test :: "'r \<Rightarrow> string \<Rightarrow> js_error + bool"
  completes :: "'v world \<Rightarrow> promise list \<Rightarrow> promise list"

definition emit :: "effect \<Rightarrow> 'v world \<Rightarrow> 'v world" where
  "emit e w = w\<lparr>trace := trace w @ [e]\<rparr>"

text \<open>How an asynchronous function ends: its promise fulfils or rejects.\<close>

datatype completion = Fulfilled | Rejected js_error

section \<open>The move executor\<close>

text \<open>
  \<open>moveFile\<close> up to its \<open>await\<close> (line 126): the rename is called, and its promise is
  in flight. The caller gets the promise and goes on.
\<close>

definition moveFile :: "TAbstractFile \<Rightarrow> string \<Rightarrow> 'v world \<Rightarrow> promise \<times> 'v world" where
  "moveFile child newPath w =
     (let p = (length (trace w), child, newPath)
      in (p, (emit (CallRename child newPath) w)\<lparr>inflight := inflight w @ [p]\<rparr>))"

text \<open>
  \<open>moveFile\<close> after its \<open>await\<close> (lines 127 to 134), run when the promise settles: the
  host makes the rename in the tree as it is then, and the outcome is reported. The
  notice and the log of a success read \<open>child.path\<close> after the rename, from the handle
  the host has updated. Everything the rename throws is caught here, so the promise of
  \<open>moveFile\<close> never rejects.
\<close>

definition moveFile_settled ::
  "('v, 'r) host \<Rightarrow> FileMoverSettings \<Rightarrow> promise \<Rightarrow> 'v world \<Rightarrow> 'v world" where
  "moveFile_settled h settings p w =
     (case p of (k, child, newPath) \<Rightarrow>
        (let w1 = w\<lparr>inflight := removeAll p (inflight w)\<rparr> in
         case rename h (vault w1) child newPath of
           Inr (v', child') \<Rightarrow>
             (let w2 = emit (RenameFulfilled child newPath) (w1\<lparr>vault := v'\<rparr>);
                  w3 = (if showMoveNotification settings
                        then emit (Notice (MovedFile (path child') newPath)) w2 else w2)
              in emit (ConsoleLog (MovedFile (path child') newPath)) w3)
         | Inl e \<Rightarrow>
             emit (Notice (FailedToMoveFile (path child)))
               (emit (ConsoleError (FailedToMoveFile (path child)) e)
                  (emit (RenameRejected child newPath e) w1))))"

text \<open>The promises of a list that are still in flight settle, in the order of the list.\<close>

fun settle_each ::
  "('v, 'r) host \<Rightarrow> FileMoverSettings \<Rightarrow> promise list \<Rightarrow> 'v world \<Rightarrow> 'v world" where
  "settle_each h settings [] w = w"
| "settle_each h settings (p # ps) w =
     settle_each h settings ps
       (if p \<in> set (inflight w) then moveFile_settled h settings p w else w)"

text \<open>
  \<open>await Promise.all(movePromises)\<close> (line 120): the engine waits until every promise of
  the folder has settled. While it waits, the renames in flight complete as the host
  schedules them (these may be renames that a folder further up has called); the
  promises of the folder that the schedule has left out settle in the order of their
  calls.
\<close>

definition Promise_all ::
  "('v, 'r) host \<Rightarrow> FileMoverSettings \<Rightarrow> promise list \<Rightarrow> 'v world \<Rightarrow> 'v world" where
  "Promise_all h settings movePromises w =
     settle_each h settings movePromises
       (settle_each h settings (completes h w movePromises) w)"

section \<open>The tree walker\<close>

text \<open>
  \<open>for (const child of folder.children)\<close> (lines 105 to 117) and the \<open>await\<close> that
  follows it (line 120). The loop iterates the live array: at every step it reads the
  children of the folder from the tree as it is then and takes the child at its index
  \<open>i\<close>, so a rename that has settled while a subfolder was awaited changes what the
  loop visits. \<open>movePromises\<close> are the promises of the renames the loop has called.
  \<open>recurse\<close> is the recursive call of \<open>processFolder\<close>, which is awaited. When a test
  throws, or the walk of a subfolder rejects, the loop is left at once: line 120 is not
  reached and the renames called so far stay in flight. The first argument bounds the
  number of steps of the loop (\<open>None\<close>: the bound was too small).
\<close>

primrec forLoop ::
  "nat \<Rightarrow> ('v, 'r) host \<Rightarrow> FileMoverSettings \<Rightarrow> 'r \<Rightarrow> string \<Rightarrow>
   (TAbstractFile \<Rightarrow> 'v world \<Rightarrow> (completion \<times> 'v world) option) \<Rightarrow>
   TAbstractFile \<Rightarrow> nat \<Rightarrow> promise list \<Rightarrow> 'v world \<Rightarrow> (completion \<times> 'v world) option" where
  "forLoop 0 h settings pattern tgt recurse folder i movePromises w = None"
| "forLoop (Suc steps) h settings pattern tgt recurse folder i movePromises w =
     (let cs = children h (vault w) folder in
      if i < length cs then
        (case cs ! i of
           TFolder n p \<Rightarrow>
             (case recurse (TFolder n p) w of
                None \<Rightarrow> None
              | Some (Rejected e, w') \<Rightarrow> Some (Rejected e, w')
              | Some (Fulfilled, w') \<Rightarrow>
                  forLoop steps h settings pattern tgt recurse folder (Suc i) movePromises w')
         | TFile n p \<Rightarrow>
             (let w1 = emit (CallTest (TFile n p)) w in
              case test h pattern n of
                Inl e \<Rightarrow> Some (Rejected e, w1)
              | Inr matched \<Rightarrow>
                  if matched
                  then (case moveFile (TFile n p) (tgt @ ''/'' @ n) w1 of
                          (promise, w2) \<Rightarrow>
                            forLoop steps h settings pattern tgt recurse folder (Suc i)
                              (movePromises @ [promise]) w2)
                  else forLoop steps h settings pattern tgt recurse folder (Suc i)
                         movePromises w1))
      else Some (Fulfilled, Promise_all h settings movePromises w))"

text \<open>
  \<open>processFolder\<close>. The host's tree need not be well-founded and a folder may keep
  growing under the loop, so the depth of the recursion and the steps of each loop are
  bounded by fuel: \<open>None\<close> means that the walk has not come back within the fuel.
\<close>

primrec processFolder ::
  "nat \<Rightarrow> ('v, 'r) host \<Rightarrow> FileMoverSettings \<Rightarrow> 'r \<Rightarrow> string \<Rightarrow> TAbstractFile \<Rightarrow> 'v world \<Rightarrow>
   (completion \<times> 'v world) option" where
  "processFolder 0 h settings pattern tgt folder w = None"
| "processFolder (Suc fuel) h settings pattern tgt folder w =
     forLoop fuel h settings pattern tgt (processFolder fuel h settings pattern tgt)
       folder 0 [] w"

section \<open>The rule runner\<close>

text \<open>The \<open>catch\<close> block of \<open>executeMoveRule\<close> (lines 95 to 98).\<close>

definition catch_invalid :: "MoveRule \<Rightarrow> js_error \<Rightarrow> 'v world \<Rightarrow> 'v world" where
  "catch_invalid rule e w =
     emit (ConsoleErrorObject e) (emit (Notice (InvalidRegularExpression (filePattern rule))) w)"

text \<open>The \<open>try\<close> block of \<open>executeMoveRule\<close> with its \<open>catch\<close> (lines 92 to 98).\<close>

definition compile_and_process ::
  "nat \<Rightarrow> ('v, 'r) host \<Rightarrow> FileMoverSettings \<Rightarrow> MoveRule \<Rightarrow> TAbstractFile \<Rightarrow> 'v world \<Rightarrow>
   (completion \<times> 'v world) option" where
  "compile_and_process fuel h settings rule sourceFolder w =
     (case RegExp h (filePattern rule) of
        Inl e \<Rightarrow> Some (Fulfilled, catch_invalid rule e w)
      | Inr regex \<Rightarrow>
          (case processFolder fuel h settings regex (targetPath rule) sourceFolder w of
             None \<Rightarrow> None
           | Some (Rejected e, w') \<Rightarrow> Some (Fulfilled, catch_invalid rule e w')
           | Some (Fulfilled, w') \<Rightarrow> Some (Fulfilled, w')))"

definition executeMoveRule ::
  "nat \<Rightarrow> ('v, 'r) host \<Rightarrow> FileMoverSettings \<Rightarrow> MoveRule \<Rightarrow> 'v world \<Rightarrow>
   (completion \<times> 'v world) option" where
  "executeMoveRule fuel h settings rule w =
     (if \<not> enabled rule then Some (Fulfilled, emit (Notice (RuleDisabled (rule_name rule))) w)
      else
        case getAbstractFileByPath h (vault w) (sourcePath rule) of
          None \<Rightarrow> Some (Fulfilled, emit (Notice (SourceFolderNotFound (sourcePath rule))) w)
        | Some (TFile n p) \<Rightarrow>
            Some (Fulfilled, emit (Notice (SourceFolderNotFound (sourcePath rule))) w)
        | Some (TFolder n p) \<Rightarrow>
            (case getAbstractFileByPath h (vault w) (targetPath rule) of
               Some targetFolder \<Rightarrow> compile_and_process fuel h settings rule (TFolder n p) w
             | None \<Rightarrow>
                 (let w1 = emit (CallCreateFolder (targetPath rule)) w in
                  case createFolder h (vault w1) (targetPath rule) of
                    Inl e \<Rightarrow>
                      Some (Fulfilled,
                            emit (Notice (FailedToCreateTargetFolder (targetPath rule))) w1)
                  | Inr v' \<Rightarrow>
                      compile_and_process fuel h settings rule (TFolder n p)
                        (w1\<lparr>vault := v'\<rparr>))))"

section \<open>A reference host\<close>

text \<open>
  A host to run the engine on: the tree is the list of its entries, each a path and a
  node, in the order of creation (the order in which a folder lists its children). A file
  node carries the identity of the file, so that a file can be followed through a move.
  Paths are the strings the plugin passes; the root has no entry, so an entry without
  \<open>/\<close> has no parent here.
\<close>

datatype node = FileNode nat | FolderNode

type_synonym tree = "(string \<times> node) list"

definition basename :: "string \<Rightarrow> string" where
  "basename s = rev (takeWhile (\<lambda>c. c \<noteq> CHR ''/'') (rev s))"

definition dirname :: "string \<Rightarrow> string" where
  "dirname s = rev (drop 1 (dropWhile (\<lambda>c. c \<noteq> CHR ''/'') (rev s)))"

definition child_of :: "string \<Rightarrow> string \<Rightarrow> bool" where
  "child_of q p \<longleftrightarrow> CHR ''/'' \<in> set p \<and> dirname p = q"

fun handle_of :: "string \<times> node \<Rightarrow> TAbstractFile" where
  "handle_of (p, FileNode i) = TFile (basename p) p"
| "handle_of (p, FolderNode) = TFolder (basename p) p"

definition tree_get :: "tree \<Rightarrow> string \<Rightarrow> TAbstractFile option" where
  "tree_get v s = (case map_of v s of None \<Rightarrow> None | Some e \<Rightarrow> Some (handle_of (s, e)))"

definition tree_createFolder :: "tree \<Rightarrow> string \<Rightarrow> js_error + tree" where
  "tree_createFolder v s =
     (if s = [] \<or> map_of v s \<noteq> None then Inl (Error ''Folder already exists.'')
      else Inr (v @ [(s, FolderNode)]))"

definition tree_children :: "tree \<Rightarrow> TAbstractFile \<Rightarrow> TAbstractFile list" where
  "tree_children v folder = map handle_of (filter (\<lambda>(p, e). child_of (path folder) p) v)"

text \<open>
  A rename fails when the handle is stale, when the destination exists, or when the
  folder of the destination does not exist; otherwise the entry leaves its place and is
  added under its new path, last among the children of its new folder, and the handle
  has the new path.
\<close>

definition tree_rename ::
  "tree \<Rightarrow> TAbstractFile \<Rightarrow> string \<Rightarrow> js_error + tree \<times> TAbstractFile" where
  "tree_rename v child newPath =
     (case map_of v (path child) of
        None \<Rightarrow> Inl (Error ''File not found'')
      | Some e \<Rightarrow>
          if map_of v newPath \<noteq> None then Inl (Error ''Destination file already exists!'')
          else if map_of v (dirname newPath) \<noteq> Some FolderNode
          then Inl (Error ''Destination folder not found'')
          else Inr (filter (\<lambda>(p, e'). p \<noteq> path child) v @ [(newPath, e)],
                    handle_of (newPath, e)))"

text \<open>
  Two schedules. \<open>in_turn\<close>: no rename completes before the folder that called it
  waits for it. \<open>first_come\<close>: while a folder waits for renames of its own, every
  rename in flight completes, in the order of the calls.
\<close>

definition in_turn :: "tree world \<Rightarrow> promise list \<Rightarrow> promise list" where
  "in_turn w movePromises = []"

definition first_come :: "tree world \<Rightarrow> promise list \<Rightarrow> promise list" where
  "first_come w movePromises = (if movePromises = [] then [] else inflight w)"

definition tree_host ::
  "(string \<Rightarrow> js_error + 'r) \<Rightarrow> ('r \<Rightarrow> string \<Rightarrow> js_error + bool) \<Rightarrow>
   (tree world \<Rightarrow> promise list \<Rightarrow> promise list) \<Rightarrow> (tree, 'r) host" where
  "tree_host compile run schedule =
     \<lparr> getAbstractFileByPath = tree_get, createFolder = tree_createFolder,
       children = tree_children, rename = tree_rename, RegExp = compile, test = run,
       completes = schedule \<rparr>"

text \<open>
  A fragment of the JavaScript regular expressions, enough for the examples: literal
  characters, \<open>.\<close>, an escaped character, \<open>^\<close> in front and \<open>$\<close> at the end. The pattern
  \<open>[\<close> and a pattern that ends in a lone backslash do not compile. Other
  metacharacters are outside the fragment (they are read as literal characters).
\<close>

fun matchhere :: "string \<Rightarrow> string \<Rightarrow> bool" where
  "matchhere [] text = True"
| "matchhere [c] text =
     (if c = CHR ''$'' then text = []
      else (case text of [] \<Rightarrow> False | t # ts \<Rightarrow> c = CHR ''.'' \<or> c = t))"
| "matchhere (c # d # re) text =
     (case text of
        [] \<Rightarrow> False
      | t # ts \<Rightarrow>
          if c = CHR 0x5C then d = t \<and> matchhere re ts
          else (c = CHR ''.'' \<or> c = t) \<and> matchhere (d # re) ts)"

fun matchfrom :: "string \<Rightarrow> string \<Rightarrow> bool" where
  "matchfrom re [] = matchhere re []"
| "matchfrom re (t # ts) = (matchhere re (t # ts) \<or> matchfrom re ts)"

definition fragment_RegExp :: "string \<Rightarrow> js_error + string" where
  "fragment_RegExp p =
     (if p = ''['' then Inl (SyntaxError ''Unterminated character class'')
      else if p \<noteq> [] \<and> last p = CHR 0x5C \<and> (length p = 1 \<or> p ! (length p - 2) \<noteq> CHR 0x5C)
      then Inl (SyntaxError ''Backslash at end of pattern'')
      else Inr p)"

definition fragment_test :: "string \<Rightarrow> string \<Rightarrow> js_error + bool" where
  "fragment_test re text =
     Inr (case re of
            [] \<Rightarrow> True
          | c # re' \<Rightarrow> if c = CHR ''^'' then matchhere re' text else matchfrom re text)"

text \<open>A matcher whose engine gives up on one name, as an engine may on any call.\<close>

definition throwing_test :: "string \<Rightarrow> string \<Rightarrow> string \<Rightarrow> js_error + bool" where
  "throwing_test bad re text =
     (if text = bad then Inl (Error ''Maximum call stack size exceeded'')
      else fragment_test re text)"

definition start :: "tree \<Rightarrow> tree world" where
  "start v = \<lparr> vault = v, trace = [], inflight = [] \<rparr>"

definition settings0 :: FileMoverSettings where
  "settings0 = \<lparr> rules = [], showMoveNotification = True \<rparr>"

subsection \<open>Example trees and rules\<close>

definition fragment_host :: "(tree, string) host" where
  "fragment_host = tree_host fragment_RegExp fragment_test in_turn"

definition inbox_tree :: tree where
  "inbox_tree =
     [(''Inbox'', FolderNode), (''Inbox/a.pdf'', FileNode 1), (''Inbox/b.txt'', FileNode 2),
      (''Inbox/Archive'', FolderNode), (''Inbox/Archive/c.pdf'', FileNode 3)]"

definition pdf_rule :: MoveRule where
  "pdf_rule =
     \<lparr> rule_id = ''1'', rule_name = ''pdfs'', sourcePath = ''Inbox'',
       filePattern = CHR 0x5C # ''.pdf$'', targetPath = ''Inbox/PDFs'', enabled = True \<rparr>"

definition out_tree :: tree where
  "out_tree = inbox_tree @ [(''Out'', FolderNode), (''Out/c.pdf'', FileNode 4)]"

definition throwing_host :: "(tree, string) host" where
  "throwing_host = tree_host fragment_RegExp (throwing_test ''b.txt'') in_turn"

definition nested_tree :: tree where
  "nested_tree =
     [(''Inbox'', FolderNode), (''Inbox/PDFs'', FolderNode), (''Inbox/a.pdf'', FileNode 1)]"

definition eager_host :: "(tree, string) host" where
  "eager_host = tree_host fragment_RegExp fragment_test first_come"

definition out_rule :: MoveRule where
  "out_rule = pdf_rule\<lparr>targetPath := ''Out''\<rparr>"



definition batch_tree :: tree where
  "batch_tree =
     [(''Inbox'', FolderNode), (''Inbox/a.pdf'', FileNode 1), (''Inbox/sub'', FolderNode),
      (''Inbox/sub/b.pdf'', FileNode 2), (''Inbox/z.pdf'', FileNode 3), (''Out'', FolderNode)]"


section \<open>Notions for the properties of a run\<close>

text \<open>
  The effects a walk towards \<open>tgt\<close> can add to the trace: tests, renames to
  \<open>tgt/name\<close>, the outcomes of renames and their reports, and the report of the
  \<open>catch\<close> block. A folder creation and the notice of a failed creation are not
  among them.
\<close>

definition walk_effect :: "string \<Rightarrow> effect \<Rightarrow> bool" where
  "walk_effect tgt x =
     (case x of
        CallTest c \<Rightarrow> True
      | CallRename c np \<Rightarrow> np = tgt @ ''/'' @ name c
      | RenameFulfilled c np \<Rightarrow> True
      | RenameRejected c np e \<Rightarrow> True
      | Notice (MovedFile p np) \<Rightarrow> True
      | Notice (FailedToMoveFile p) \<Rightarrow> True
      | Notice (InvalidRegularExpression p) \<Rightarrow> True
      | ConsoleLog m \<Rightarrow> True
      | ConsoleError m e \<Rightarrow> True
      | ConsoleErrorObject e \<Rightarrow> True
      | _ \<Rightarrow> False)"



text \<open>\<open>beneath q p\<close>: the path \<open>p\<close> lies in the subtree of the folder path \<open>q\<close>.\<close>

definition beneath :: "string \<Rightarrow> string \<Rightarrow> bool" where
  "beneath q p \<longleftrightarrow> prefix (q @ ''/'') p"


text \<open>
  The state of the file \<open>i\<close>, which was at \<open>p\<close> when the walk towards \<open>tgt\<close> began:
  still at \<open>p\<close>, no rename of it fulfilled; or no longer at \<open>p\<close> but at
  \<open>tgt/basename p\<close>, its name matching, its rename fulfilled.
\<close>

definition file_state ::
  "('r \<Rightarrow> string \<Rightarrow> js_error + bool) \<Rightarrow> 'r \<Rightarrow> string \<Rightarrow> string \<Rightarrow> nat \<Rightarrow> tree world \<Rightarrow> bool" where
  "file_state ru regex tgt p i w \<longleftrightarrow>
     (map_of (vault w) p = Some (FileNode i) \<and>
      RenameFulfilled (TFile (basename p) p) (tgt @ ''/'' @ basename p) \<notin> set (trace w)) \<or>
     (map_of (vault w) p = None \<and>
      map_of (vault w) (tgt @ ''/'' @ basename p) = Some (FileNode i) \<and>
      ru regex (basename p) = Inr True \<and>
      RenameFulfilled (TFile (basename p) p) (tgt @ ''/'' @ basename p) \<in> set (trace w))"

text \<open>
  Bounds used for the fuel: no path of the tree is longer than \<open>longest\<close>; a tree is
  \<open>sound\<close> when its paths are distinct and stay within the lengths a walk towards \<open>tgt\<close>
  can produce.
\<close>

definition longest :: "tree \<Rightarrow> nat" where
  "longest v = foldr (\<lambda>(x, e) m. max (length x) m) v 0"

definition bounded :: "string \<Rightarrow> nat \<Rightarrow> tree \<Rightarrow> bool" where
  "bounded tgt L v \<longleftrightarrow>
     (\<forall>(x, e) \<in> set v. length (basename x) \<le> L \<and> length x \<le> length tgt + 1 + L)"

definition sound :: "string \<Rightarrow> nat \<Rightarrow> tree \<Rightarrow> bool" where
  "sound tgt L v \<longleftrightarrow> distinct (map fst v) \<and> bounded tgt L v"

text \<open>
  A rename in flight as the walk towards \<open>tgt\<close> calls it: of a file handle whose name is
  the base name of its path and matches, to \<open>tgt/name\<close>. The invariant of the walk on
  the reference host: the tree is sound, it has at most \<open>N\<close> entries, and every rename
  in flight is of that kind, with no folder at the path of its handle.
\<close>

definition good ::
  "('r \<Rightarrow> string \<Rightarrow> js_error + bool) \<Rightarrow> 'r \<Rightarrow> string \<Rightarrow> nat \<Rightarrow> promise \<Rightarrow> bool" where
  "good ru regex tgt L p \<longleftrightarrow>
     (case p of (k, c, np) \<Rightarrow>
        (case c of
           TFile n q \<Rightarrow>
             n = basename q \<and> np = tgt @ ''/'' @ n \<and> length n \<le> L \<and> ru regex n = Inr True
         | TFolder n q \<Rightarrow> False))"

definition walk_inv ::
  "('r \<Rightarrow> string \<Rightarrow> js_error + bool) \<Rightarrow> 'r \<Rightarrow> string \<Rightarrow> nat \<Rightarrow> nat \<Rightarrow> tree world \<Rightarrow> bool" where
  "walk_inv ru regex tgt L N w \<longleftrightarrow>
     sound tgt L (vault w) \<and> length (vault w) \<le> N \<and>
     (\<forall>p \<in> set (inflight w).
        good ru regex tgt L p \<and> map_of (vault w) (path (fst (snd p))) \<noteq> Some FolderNode)"

section \<open>Invariants of the walk\<close>

text \<open>
  Whatever holds before the walk and is kept by every test, by every call of a rename and
  by the settling of every rename in flight holds after it: \<open>R\<close> are the folders the walk
  may enter, \<open>Q\<close> the invariant of the world.
\<close>

lemma vault_emit [simp]: "vault (emit e w) = vault w"
  by (simp add: emit_def)

lemma trace_emit [simp]: "trace (emit e w) = trace w @ [e]"
  by (simp add: emit_def)

lemma inflight_emit [simp]: "inflight (emit e w) = inflight w"
  by (simp add: emit_def)

lemma settle_each_inv:
  assumes stl: "\<And>u p. Q u \<Longrightarrow> p \<in> set (inflight u) \<Longrightarrow> Q (moveFile_settled h settings p u)"
  shows "Q w \<Longrightarrow> Q (settle_each h settings ps w)"
proof (induction ps arbitrary: w)
  case Nil
  then show ?case by simp
next
  case (Cons p ps)
  have "Q (if p \<in> set (inflight w) then moveFile_settled h settings p w else w)"
    using Cons.prems stl by simp
  then show ?case using Cons.IH by simp
qed

lemma Promise_all_inv:
  assumes stl: "\<And>u p. Q u \<Longrightarrow> p \<in> set (inflight u) \<Longrightarrow> Q (moveFile_settled h settings p u)"
  shows "Q w \<Longrightarrow> Q (Promise_all h settings ps w)"
  unfolding Promise_all_def
  by (intro settle_each_inv [where Q = Q, OF stl])

lemma forLoop_inv:
  assumes stl: "\<And>u p. Q u \<Longrightarrow> p \<in> set (inflight u) \<Longrightarrow> Q (moveFile_settled h settings p u)"
    and tst: "\<And>u n p. Q u \<Longrightarrow> TFile n p \<in> set (children h (vault u) folder) \<Longrightarrow>
                test h pattern n \<noteq> Inr True \<Longrightarrow> Q (emit (CallTest (TFile n p)) u)"
    and iss: "\<And>u n p. Q u \<Longrightarrow> TFile n p \<in> set (children h (vault u) folder) \<Longrightarrow>
                test h pattern n = Inr True \<Longrightarrow>
                Q (snd (moveFile (TFile n p) (tgt @ ''/'' @ n) (emit (CallTest (TFile n p)) u)))"
    and rec: "\<And>u n p r u'. Q u \<Longrightarrow> TFolder n p \<in> set (children h (vault u) folder) \<Longrightarrow>
                recurse (TFolder n p) u = Some (r, u') \<Longrightarrow> Q u'"
  shows "Q w \<Longrightarrow> forLoop steps h settings pattern tgt recurse folder i ps w = Some (r, w') \<Longrightarrow> Q w'"
proof (induction steps arbitrary: i ps w)
  case 0
  then show ?case by simp
next
  case (Suc steps)
  let ?cs = "children h (vault w) folder"
  show ?case
  proof (cases "i < length ?cs")
    case False
    with Suc.prems(2) have "w' = Promise_all h settings ps w" by (simp add: Let_def)
    then show ?thesis using Promise_all_inv [where Q = Q, OF stl Suc.prems(1)] by simp
  next
    case True
    then have mem: "?cs ! i \<in> set ?cs" by simp
    show ?thesis
    proof (cases "?cs ! i")
      case (TFolder n p)
      with Suc.prems(2) True obtain r1 w1 where r1: "recurse (TFolder n p) w = Some (r1, w1)"
        by (auto simp: Let_def split: option.splits)
      have Q1: "Q w1" using rec [OF Suc.prems(1) _ r1] mem TFolder by simp
      show ?thesis
      proof (cases r1)
        case Fulfilled
        with Suc.prems(2) True TFolder r1
        have "forLoop steps h settings pattern tgt recurse folder (Suc i) ps w1 = Some (r, w')"
          by (simp add: Let_def)
        with Suc.IH [OF Q1] show ?thesis by simp
      next
        case (Rejected e)
        with Suc.prems(2) True TFolder r1 have "w' = w1" by (simp add: Let_def)
        with Q1 show ?thesis by simp
      qed
    next
      case (TFile n p)
      let ?wt = "emit (CallTest (TFile n p)) w"
      have Q1: "Q ?wt" if "test h pattern n \<noteq> Inr True"
        using tst [OF Suc.prems(1) _ that] mem TFile by simp
      show ?thesis
      proof (cases "test h pattern n")
        case (Inl e)
        with Suc.prems(2) True TFile have "w' = ?wt" by (simp add: Let_def)
        with Q1 Inl show ?thesis by simp
      next
        case (Inr b)
        show ?thesis
        proof (cases b)
          case False
          with Suc.prems(2) True TFile Inr
          have "forLoop steps h settings pattern tgt recurse folder (Suc i) ps ?wt = Some (r, w')"
            by (simp add: Let_def)
          moreover have "Q ?wt" using Q1 Inr False by simp
          ultimately show ?thesis using Suc.IH by simp
        next
          case b: True
          obtain pr w2 where m: "moveFile (TFile n p) (tgt @ ''/'' @ n) ?wt = (pr, w2)"
            by (cases "moveFile (TFile n p) (tgt @ ''/'' @ n) ?wt")
          have Q2: "Q w2" using iss [OF Suc.prems(1), of n p] mem TFile Inr b m by simp
          from Suc.prems(2) True TFile Inr b m
          have "forLoop steps h settings pattern tgt recurse folder (Suc i) (ps @ [pr]) w2 = Some (r, w')"
            by (simp add: Let_def)
          with Suc.IH [OF Q2] show ?thesis by simp
        qed
      qed
    qed
  qed
qed

lemma processFolder_inv:
  assumes stl: "\<And>u p. Q u \<Longrightarrow> p \<in> set (inflight u) \<Longrightarrow> Q (moveFile_settled h settings p u)"
    and fol: "\<And>u f n p. Q u \<Longrightarrow> R f \<Longrightarrow> TFolder n p \<in> set (children h (vault u) f) \<Longrightarrow>
                R (TFolder n p)"
    and tst: "\<And>u f n p. Q u \<Longrightarrow> R f \<Longrightarrow> TFile n p \<in> set (children h (vault u) f) \<Longrightarrow>
                test h pattern n \<noteq> Inr True \<Longrightarrow> Q (emit (CallTest (TFile n p)) u)"
    and iss: "\<And>u f n p. Q u \<Longrightarrow> R f \<Longrightarrow> TFile n p \<in> set (children h (vault u) f) \<Longrightarrow>
                test h pattern n = Inr True \<Longrightarrow>
                Q (snd (moveFile (TFile n p) (tgt @ ''/'' @ n) (emit (CallTest (TFile n p)) u)))"
  shows "Q w \<Longrightarrow> R f \<Longrightarrow> processFolder fuel h settings pattern tgt f w = Some (r, w') \<Longrightarrow> Q w'"
proof (induction fuel arbitrary: w f r w')
  case 0
  then show ?case by simp
next
  case (Suc fuel)
  from Suc.prems(3)
  have run: "forLoop fuel h settings pattern tgt (processFolder fuel h settings pattern tgt) f 0 [] w
      = Some (r, w')"
    by simp
  have rec: "Q u \<Longrightarrow> TFolder n p \<in> set (children h (vault u) f) \<Longrightarrow>
      processFolder fuel h settings pattern tgt (TFolder n p) u = Some (ra, u') \<Longrightarrow> Q u'"
    for u n p ra u'
    using Suc.IH [of u "TFolder n p" ra u'] fol [OF _ Suc.prems(2)] by blast
  have tst': "Q u \<Longrightarrow> TFile n p \<in> set (children h (vault u) f) \<Longrightarrow>
      test h pattern n \<noteq> Inr True \<Longrightarrow> Q (emit (CallTest (TFile n p)) u)" for u n p
    using tst [OF _ Suc.prems(2)] by blast
  have iss': "Q u \<Longrightarrow> TFile n p \<in> set (children h (vault u) f) \<Longrightarrow>
      test h pattern n = Inr True \<Longrightarrow>
      Q (snd (moveFile (TFile n p) (tgt @ ''/'' @ n) (emit (CallTest (TFile n p)) u)))" for u n p
    using iss [OF _ Suc.prems(2)] by blast
  show ?case
    by (rule forLoop_inv [where Q = Q, OF stl tst' iss' rec Suc.prems(1) run])
qed

lemma moveFile_settled_effects:
  "\<exists>es. trace (moveFile_settled h settings p w) = trace w @ es \<and>
        (\<forall>x \<in> set es. walk_effect tgt x)"
  by (cases p) (auto simp: moveFile_settled_def Let_def walk_effect_def split: sum.splits)

lemma moveFile_effects:
  "trace (snd (moveFile c np w)) = trace w @ [CallRename c np]"
  by (simp add: moveFile_def Let_def)

lemma processFolder_effects:
  fixes w :: "'v world"
  assumes "processFolder fuel h settings pattern tgt f w = Some (r, w')"
  shows "\<exists>es. trace w' = trace w @ es \<and> (\<forall>x \<in> set es. walk_effect tgt x)"
proof -
  let ?Q = "\<lambda>u :: 'v world. \<exists>es. trace u = trace w @ es \<and> (\<forall>x \<in> set es. walk_effect tgt x)"
  have stl: "?Q (moveFile_settled h settings p u)" if "?Q u" "p \<in> set (inflight u)" for u p
  proof -
    from that(1) obtain es where es: "trace u = trace w @ es" "\<forall>x \<in> set es. walk_effect tgt x"
      by blast
    obtain es' where "trace (moveFile_settled h settings p u) = trace u @ es'"
        "\<forall>x \<in> set es'. walk_effect tgt x"
      using moveFile_settled_effects [of h settings p u tgt] by blast
    with es show ?thesis by (intro exI [of _ "es @ es'"]) auto
  qed
  have tst: "?Q (emit (CallTest c) u)" if "?Q u" for u c
  proof -
    from that(1) obtain es where es: "trace u = trace w @ es" "\<forall>x \<in> set es. walk_effect tgt x"
      by blast
    then show ?thesis by (intro exI [of _ "es @ [CallTest c]"]) (auto simp: walk_effect_def)
  qed
  have iss: "?Q (snd (moveFile (TFile n p) (tgt @ ''/'' @ n) (emit (CallTest (TFile n p)) u)))"
    if "?Q u" for u n p
  proof -
    from that(1) obtain es where es: "trace u = trace w @ es" "\<forall>x \<in> set es. walk_effect tgt x"
      by blast
    then show ?thesis
      by (intro exI [of _ "es @ [CallTest (TFile n p), CallRename (TFile n p) (tgt @ ''/'' @ n)]"])
         (auto simp: walk_effect_def moveFile_effects)
  qed
  have start: "?Q w" by simp
  show ?thesis
    by (rule processFolder_inv [where Q = ?Q and R = "\<lambda>_. True",
          OF stl TrueI tst iss start TrueI assms])
qed

lemma compile_and_process_effects:
  assumes "compile_and_process fuel h settings rule f w = Some (r, w')"
  shows "\<exists>es. trace w' = trace w @ es \<and> (\<forall>x \<in> set es. walk_effect (targetPath rule) x)"
proof (cases "RegExp h (filePattern rule)")
  case (Inl e)
  with assms have "w' = catch_invalid rule e w" by (simp add: compile_and_process_def)
  then show ?thesis
    by (intro exI [of _ "[Notice (InvalidRegularExpression (filePattern rule)), ConsoleErrorObject e]"])
       (simp add: catch_invalid_def walk_effect_def)
next
  case (Inr regex)
  with assms obtain r1 w1 where
    run: "processFolder fuel h settings regex (targetPath rule) f w = Some (r1, w1)"
    by (auto simp: compile_and_process_def split: option.splits)
  from processFolder_effects [OF run] obtain es where
    es: "trace w1 = trace w @ es" "\<forall>x \<in> set es. walk_effect (targetPath rule) x" by blast
  show ?thesis
  proof (cases r1)
    case Fulfilled
    with assms Inr run have "w' = w1" by (simp add: compile_and_process_def)
    with es show ?thesis by blast
  next
    case (Rejected e)
    with assms Inr run have "w' = catch_invalid rule e w1" by (simp add: compile_and_process_def)
    with es show ?thesis
      by (intro exI [of _ "es @ [Notice (InvalidRegularExpression (filePattern rule)), ConsoleErrorObject e]"])
         (simp add: catch_invalid_def walk_effect_def)
  qed
qed

subsection \<open>Renames in flight\<close>

lemma inflight_moveFile_settled [simp]:
  "inflight (moveFile_settled h settings p w) = removeAll p (inflight w)"
  by (cases p) (simp add: moveFile_settled_def Let_def split: sum.splits)

lemma settle_each_inflight:
  "set (inflight (settle_each h settings ps w)) \<subseteq> set (inflight w) - set ps"
proof (induction ps arbitrary: w)
  case Nil
  then show ?case by simp
next
  case (Cons p ps)
  let ?w = "if p \<in> set (inflight w) then moveFile_settled h settings p w else w"
  have "set (inflight ?w) \<subseteq> set (inflight w) - {p}" by auto
  with Cons.IH [of ?w] show ?case by auto
qed

lemma settle_each_inflight_subset:
  "set (inflight (settle_each h settings ps w)) \<subseteq> set (inflight w)"
  using settle_each_inflight [of h settings ps w] by blast

lemma Promise_all_inflight:
  "set (inflight (Promise_all h settings ps w)) \<subseteq> set (inflight w) - set ps"
  unfolding Promise_all_def
  using settle_each_inflight [of h settings ps "settle_each h settings (completes h w ps) w"]
    settle_each_inflight_subset [of h settings "completes h w ps" w]
  by blast

lemma inflight_moveFile:
  "inflight (snd (moveFile c np w)) = inflight w @ [fst (moveFile c np w)]"
  by (simp add: moveFile_def Let_def)

lemma vault_moveFile [simp]: "vault (snd (moveFile c np w)) = vault w"
  by (simp add: moveFile_def Let_def)

lemma forLoop_inflight:
  assumes rec: "\<And>c u u'. recurse c u = Some (Fulfilled, u') \<Longrightarrow>
                  set (inflight u') \<subseteq> set (inflight u)"
  shows "forLoop steps h settings pattern tgt recurse folder i ps w = Some (Fulfilled, w') \<Longrightarrow>
         set (inflight w') \<subseteq> set (inflight w) - set ps"
proof (induction steps arbitrary: i ps w)
  case 0
  then show ?case by simp
next
  case (Suc steps)
  let ?cs = "children h (vault w) folder"
  show ?case
  proof (cases "i < length ?cs")
    case False
    with Suc.prems have "w' = Promise_all h settings ps w" by (simp add: Let_def)
    then show ?thesis using Promise_all_inflight [of h settings ps w] by simp
  next
    case True
    show ?thesis
    proof (cases "?cs ! i")
      case (TFolder n p)
      with Suc.prems True obtain r1 w1 where r1: "recurse (TFolder n p) w = Some (r1, w1)"
        by (auto simp: Let_def split: option.splits)
      show ?thesis
      proof (cases r1)
        case Fulfilled
        with Suc.prems True TFolder r1
        have "forLoop steps h settings pattern tgt recurse folder (Suc i) ps w1 = Some (Fulfilled, w')"
          by (simp add: Let_def)
        from Suc.IH [OF this] rec [of "TFolder n p" w w1] r1 Fulfilled show ?thesis by auto
      next
        case (Rejected e)
        with Suc.prems True TFolder r1 show ?thesis by (simp add: Let_def)
      qed
    next
      case (TFile n p)
      let ?wt = "emit (CallTest (TFile n p)) w"
      show ?thesis
      proof (cases "test h pattern n")
        case (Inl e)
        with Suc.prems True TFile show ?thesis by (simp add: Let_def)
      next
        case (Inr b)
        show ?thesis
        proof (cases b)
          case False
          with Suc.prems True TFile Inr
          have "forLoop steps h settings pattern tgt recurse folder (Suc i) ps ?wt = Some (Fulfilled, w')"
            by (simp add: Let_def)
          from Suc.IH [OF this] show ?thesis by simp
        next
          case b: True
          obtain pr w2 where m: "moveFile (TFile n p) (tgt @ ''/'' @ n) ?wt = (pr, w2)"
            by (cases "moveFile (TFile n p) (tgt @ ''/'' @ n) ?wt")
          have i2: "inflight w2 = inflight w @ [pr]"
            using inflight_moveFile [of "TFile n p" "tgt @ ''/'' @ n" ?wt] m by simp
          from Suc.prems True TFile Inr b m
          have "forLoop steps h settings pattern tgt recurse folder (Suc i) (ps @ [pr]) w2 =
              Some (Fulfilled, w')"
            by (simp add: Let_def)
          from Suc.IH [OF this] i2 show ?thesis by auto
        qed
      qed
    qed
  qed
qed

lemma processFolder_inflight:
  "processFolder fuel h settings pattern tgt f w = Some (Fulfilled, w') \<Longrightarrow>
   set (inflight w') \<subseteq> set (inflight w)"
proof (induction fuel arbitrary: f w w')
  case 0
  then show ?case by simp
next
  case (Suc fuel)
  from Suc.prems
  have run: "forLoop fuel h settings pattern tgt (processFolder fuel h settings pattern tgt) f 0 [] w
      = Some (Fulfilled, w')"
    by simp
  have "set (inflight w') \<subseteq> set (inflight w) - set []"
    by (rule forLoop_inflight [OF _ run]) (rule Suc.IH)
  then show ?case by simp
qed




subsection \<open>A folder without subfolders\<close>






subsection \<open>A schedule that completes only the renames waited for\<close>





section \<open>The reference host: paths, renames and the walk\<close>

lemma basename_no_slash: "CHR ''/'' \<notin> set (basename p)"
  by (auto simp: basename_def dest: set_takeWhileD)

lemma basename_append: "CHR ''/'' \<notin> set n \<Longrightarrow> basename (t @ ''/'' @ n) = n"
proof -
  assume a: "CHR ''/'' \<notin> set n"
  have "takeWhile (\<lambda>c. c \<noteq> CHR ''/'') (rev n @ CHR ''/'' # rev t) = rev n"
    using a by (subst takeWhile_append2) auto
  then show ?thesis by (simp add: basename_def)
qed

lemma dirname_append: "CHR ''/'' \<notin> set n \<Longrightarrow> dirname (t @ ''/'' @ n) = t"
proof -
  assume a: "CHR ''/'' \<notin> set n"
  have "dropWhile (\<lambda>c. c \<noteq> CHR ''/'') (rev n @ CHR ''/'' # rev t) = CHR ''/'' # rev t"
    using a by (subst dropWhile_append2) auto
  then show ?thesis by (simp add: dirname_def)
qed

lemma split_path: "CHR ''/'' \<in> set p \<Longrightarrow> p = dirname p @ ''/'' @ basename p"
proof -
  assume a: "CHR ''/'' \<in> set p"
  let ?P = "\<lambda>c. c \<noteq> CHR ''/''"
  have ne: "dropWhile ?P (rev p) \<noteq> []" using a by (simp add: dropWhile_eq_Nil_conv)
  have "hd (dropWhile ?P (rev p)) = CHR ''/''"
    using hd_dropWhile [OF ne] by simp
  with ne have d: "dropWhile ?P (rev p) = CHR ''/'' # drop 1 (dropWhile ?P (rev p))"
    by (cases "dropWhile ?P (rev p)") auto
  have "rev p = takeWhile ?P (rev p) @ dropWhile ?P (rev p)" by simp
  then have "rev p = takeWhile ?P (rev p) @ CHR ''/'' # drop 1 (dropWhile ?P (rev p))"
    using d by simp
  then have "p = rev (takeWhile ?P (rev p) @ CHR ''/'' # drop 1 (dropWhile ?P (rev p)))"
    by (metis rev_rev_ident)
  then show ?thesis by (simp add: dirname_def basename_def)
qed

lemma child_of_iff: "child_of q p \<longleftrightarrow> (\<exists>n. CHR ''/'' \<notin> set n \<and> p = q @ ''/'' @ n)"
proof
  assume "child_of q p"
  then have "CHR ''/'' \<in> set p" "dirname p = q" by (auto simp: child_of_def)
  with split_path [of p] basename_no_slash [of p] show "\<exists>n. CHR ''/'' \<notin> set n \<and> p = q @ ''/'' @ n"
    by metis
next
  assume "\<exists>n. CHR ''/'' \<notin> set n \<and> p = q @ ''/'' @ n"
  then show "child_of q p" using dirname_append [of _ q] by (auto simp: child_of_def)
qed

lemma child_of_beneath: "child_of q p \<Longrightarrow> beneath q p"
  by (auto simp: child_of_iff beneath_def)

lemma beneath_trans: "beneath a b \<Longrightarrow> beneath b c \<Longrightarrow> beneath a c"
  by (auto simp: beneath_def prefix_def)

lemma beneath_length: "beneath q p \<Longrightarrow> length q < length p"
  by (auto simp: beneath_def prefix_def)

lemma beneath_irrefl: "\<not> beneath p p"
  using beneath_length by blast

text \<open>A direct child of \<open>q\<close> lies below \<open>s\<close> only if \<open>q\<close> is \<open>s\<close> or lies below \<open>s\<close>.\<close>

lemma beneath_child_of: 
  assumes "beneath s p" and "child_of q p"
  shows "q = s \<or> beneath s q"
proof -
  from assms(2) obtain n where n: "CHR ''/'' \<notin> set n" "p = q @ ''/'' @ n"
    by (auto simp: child_of_iff)
  from assms(1) obtain r where r: "p = (s @ ''/'') @ r" by (auto simp: beneath_def prefix_def)
  have "q @ ''/'' @ n = s @ ''/'' @ r" using n r by simp
  then consider (a) us where "q = s @ us" "us @ ''/'' @ n = ''/'' @ r"
    | (b) us where "q @ us = s" "''/'' @ n = us @ ''/'' @ r"
    by (auto simp: append_eq_append_conv2)
  then show ?thesis
  proof cases
    case a
    show ?thesis
    proof (cases us)
      case Nil
      with a show ?thesis by simp
    next
      case (Cons u us')
      with a have "u = CHR ''/''" by simp
      with a Cons show ?thesis by (simp add: beneath_def)
    qed
  next
    case b
    show ?thesis
    proof (cases us)
      case Nil
      with b show ?thesis by simp
    next
      case (Cons u us')
      with b have "n = us' @ ''/'' @ r" by simp
      with n show ?thesis by simp
    qed
  qed
qed

lemma tree_host_simps [simp]:
  "getAbstractFileByPath (tree_host co ru sc) = tree_get"
  "createFolder (tree_host co ru sc) = tree_createFolder"
  "children (tree_host co ru sc) = tree_children"
  "rename (tree_host co ru sc) = tree_rename"
  "RegExp (tree_host co ru sc) = co"
  "test (tree_host co ru sc) = ru"
  "completes (tree_host co ru sc) = sc"
  by (simp_all add: tree_host_def)

lemma handle_of_path [simp]: "path (handle_of (x, e)) = x"
  by (cases e) simp_all

lemma handle_of_name [simp]: "name (handle_of (x, e)) = basename x"
  by (cases e) simp_all

lemma tree_children_iff:
  "c \<in> set (tree_children v f) \<longleftrightarrow>
     (\<exists>x e. (x, e) \<in> set v \<and> child_of (path f) x \<and> c = handle_of (x, e))"
  by (auto simp: tree_children_def)

lemma map_of_filter_neq:
  "k \<noteq> x \<Longrightarrow> map_of (filter (\<lambda>(p, e). p \<noteq> x) v) k = map_of v k"
  by (induction v) auto

lemma map_of_filter_eq: "map_of (filter (\<lambda>(p, e). p \<noteq> x) v) x = None"
  by (induction v) auto

lemma tree_rename_Inr:
  assumes "tree_rename v c np = Inr (v', c')"
  shows "map_of v np = None \<and> map_of v (dirname np) = Some FolderNode \<and>
         (\<exists>e. map_of v (path c) = Some e \<and>
              v' = filter (\<lambda>(p, e'). p \<noteq> path c) v @ [(np, e)] \<and> c' = handle_of (np, e))"
  using assms by (auto simp: tree_rename_def split: option.splits if_splits)

lemma map_of_rename:
  assumes "tree_rename v c np = Inr (v', c')"
  shows "map_of v' k =
     (if k = np then map_of v (path c) else if k = path c then None else map_of v k)"
proof -
  from tree_rename_Inr [OF assms] obtain e where
    e: "map_of v np = None" "map_of v (path c) = Some e"
       "v' = filter (\<lambda>(p, e'). p \<noteq> path c) v @ [(np, e)]"
    by blast
  then have ne: "np \<noteq> path c" by auto
  show ?thesis
  proof (cases "k = np")
    case True
    with e ne show ?thesis by (simp add: map_add_def map_of_filter_neq)
  next
    case False
    then show ?thesis
      using e by (cases "k = path c")
        (simp_all add: map_add_def map_of_filter_neq map_of_filter_eq split: option.splits)
  qed
qed

lemma length_rename:
  assumes "tree_rename v c np = Inr (v', c')"
  shows "length v' \<le> length v"
proof -
  from tree_rename_Inr [OF assms] obtain e where
    e: "map_of v (path c) = Some e" "v' = filter (\<lambda>(p, e'). p \<noteq> path c) v @ [(np, e)]"
    by blast
  from e(1) have "(path c, e) \<in> set v" by (rule map_of_SomeD)
  then have "length (filter (\<lambda>(p, e'). p \<noteq> path c) v) < length v"
    by (intro length_filter_less [of "(path c, e)"]) auto
  with e(2) show ?thesis by simp
qed

text \<open>What the settling of a rename does on the reference host.\<close>

lemma settled_tree_cases:
  fixes w :: "tree world"
  shows "(\<exists>e. tree_rename (vault w) c np = Inl e \<and>
           vault (moveFile_settled (tree_host co ru sc) settings (k, c, np) w) = vault w \<and>
           trace (moveFile_settled (tree_host co ru sc) settings (k, c, np) w) =
             trace w @ [RenameRejected c np e, ConsoleError (FailedToMoveFile (path c)) e,
                        Notice (FailedToMoveFile (path c))]) \<or>
         (\<exists>v' c'. tree_rename (vault w) c np = Inr (v', c') \<and>
           vault (moveFile_settled (tree_host co ru sc) settings (k, c, np) w) = v' \<and>
           trace (moveFile_settled (tree_host co ru sc) settings (k, c, np) w) =
             trace w @ RenameFulfilled c np #
               (if showMoveNotification settings then [Notice (MovedFile np np)] else []) @
               [ConsoleLog (MovedFile np np)])"
proof (cases "tree_rename (vault w) c np")
  case (Inl e)
  then show ?thesis by (simp add: moveFile_settled_def Let_def)
next
  case (Inr a)
  obtain v' c' where a: "a = (v', c')" by (cases a)
  from tree_rename_Inr [of "vault w" c np v' c'] Inr a have "path c' = np" by auto
  with Inr a show ?thesis by (simp add: moveFile_settled_def Let_def)
qed

lemma child_handle:
  assumes "c \<in> set (tree_children v f)"
  shows "name c = basename (path c) \<and> child_of (path f) (path c) \<and> (\<exists>e. (path c, e) \<in> set v)"
  using assms by (auto simp: tree_children_iff)

lemma longest_ge: "(x, e) \<in> set v \<Longrightarrow> length x \<le> longest v"
  by (induction v) (auto simp: longest_def)

lemma basename_length: "length (basename x) \<le> length x"
  using length_takeWhile_le [of "\<lambda>c. c \<noteq> CHR ''/''" "rev x"] by (simp add: basename_def)

lemma bounded_longest: "longest v \<le> L \<Longrightarrow> bounded tgt L v"
  using longest_ge basename_length by (fastforce simp: bounded_def intro: order_trans)


lemma sound_rename:
  assumes "sound tgt L v" and "length (basename x) \<le> L"
    and "tree_rename v (TFile (basename x) x) (tgt @ ''/'' @ basename x) = Inr (v', c')"
  shows "sound tgt L v'"
proof -
  let ?np = "tgt @ ''/'' @ basename x"
  from tree_rename_Inr [OF assms(3)] obtain e where
    e: "map_of v ?np = None" "map_of v x = Some e"
       "v' = filter (\<lambda>(p, e'). p \<noteq> x) v @ [(?np, e)]"
    by auto
  have "?np \<notin> fst ` set v" using e(1) by (simp add: map_of_eq_None_iff)
  then have "?np \<notin> fst ` set (filter (\<lambda>(p, e'). p \<noteq> x) v)" by auto
  moreover have "distinct (map fst (filter (\<lambda>(p, e'). p \<noteq> x) v))"
    using assms(1) by (simp add: sound_def distinct_map_filter)
  ultimately have "distinct (map fst v')" using e(3) by simp
  moreover have "basename ?np = basename x" by (rule basename_append [OF basename_no_slash])
  then have "bounded tgt L v'"
    using assms(1,2) unfolding e(3) by (auto simp: sound_def bounded_def)
  ultimately show ?thesis by (simp add: sound_def)
qed

lemma tree_get_folder:
  "tree_get v s = Some (TFolder sn sp) \<Longrightarrow> sp = s \<and> sn = basename s \<and> map_of v s = Some FolderNode"
  by (auto simp: tree_get_def split: option.splits elim: handle_of.elims)


lemma walk_inv_emit [simp]: "walk_inv ru regex tgt L N (emit e w) = walk_inv ru regex tgt L N w"
  by (simp add: walk_inv_def emit_def)

lemma walk_inv_settle:
  fixes w :: "tree world"
  assumes inv: "walk_inv ru regex tgt L N w" and p: "p \<in> set (inflight w)"
  shows "walk_inv ru regex tgt L N (moveFile_settled (tree_host co ru sc) settings p w)"
proof -
  from inv p have g: "good ru regex tgt L p" by (simp add: walk_inv_def)
  then obtain k q where pq: "p = (k, TFile (basename q) q, tgt @ ''/'' @ basename q)"
    and lq: "length (basename q) \<le> L"
    by (auto simp: good_def split: prod.splits TAbstractFile.splits)
  from inv p pq have nq: "map_of (vault w) q \<noteq> Some FolderNode" by (auto simp: walk_inv_def)
  let ?w = "moveFile_settled (tree_host co ru sc) settings p w"
  have sub: "set (inflight ?w) \<subseteq> set (inflight w)" by auto
  from settled_tree_cases [of w "TFile (basename q) q" "tgt @ ''/'' @ basename q" co ru sc settings k]
  consider (fail) "vault ?w = vault w"
    | (ok) v' c' where "tree_rename (vault w) (TFile (basename q) q) (tgt @ ''/'' @ basename q) = Inr (v', c')"
        "vault ?w = v'"
    unfolding pq by blast
  then show ?thesis
  proof cases
    case fail
    with inv sub show ?thesis by (auto simp: walk_inv_def)
  next
    case ok
    from inv have s: "sound tgt L (vault w)" and n: "length (vault w) \<le> N"
      by (simp_all add: walk_inv_def)
    have "good ru regex tgt L p' \<and> map_of (vault ?w) (path (fst (snd p'))) \<noteq> Some FolderNode"
      if "p' \<in> set (inflight ?w)" for p'
    proof -
      from that sub inv have g': "good ru regex tgt L p'"
        and n': "map_of (vault w) (path (fst (snd p'))) \<noteq> Some FolderNode"
        by (auto simp: walk_inv_def)
      from map_of_rename [OF ok(1), of "path (fst (snd p'))"] ok(2) nq n'
      have "map_of (vault ?w) (path (fst (snd p'))) \<noteq> Some FolderNode"
        by (auto split: if_splits)
      with g' show ?thesis by simp
    qed
    with sound_rename [OF s lq ok(1)] length_rename [OF ok(1)] n ok(2)
    show ?thesis by (simp add: walk_inv_def)
  qed
qed

lemma walk_inv_issue:
  fixes u :: "tree world"
  assumes inv: "walk_inv ru regex tgt L N u"
    and c: "TFile n q \<in> set (tree_children (vault u) f)"
    and m: "ru regex n = Inr True"
  shows "walk_inv ru regex tgt L N
           (snd (moveFile (TFile n q) (tgt @ ''/'' @ n) (emit (CallTest (TFile n q)) u)))"
proof -
  from c obtain x e where xe: "(x, e) \<in> set (vault u)" "TFile n q = handle_of (x, e)"
    by (auto simp: tree_children_iff)
  then obtain i where e: "e = FileNode i" and x: "x = q" and n: "n = basename q"
    by (cases e) auto
  from inv have d: "distinct (map fst (vault u))" by (simp add: walk_inv_def sound_def)
  from xe(1) e x d have at: "map_of (vault u) q = Some (FileNode i)" by simp
  from inv xe(1) x have "length (basename q) \<le> L"
    by (auto simp: walk_inv_def sound_def bounded_def)
  with n m have "good ru regex tgt L (k, TFile n q, tgt @ ''/'' @ n)" for k
    by (simp add: good_def)
  with inv at show ?thesis by (auto simp: walk_inv_def moveFile_def Let_def emit_def)
qed

text \<open>
  The invariant rule of the walk on the reference host: the invariant \<open>walk_inv\<close> is
  kept, and with it whatever \<open>X\<close> the tests, the calls and the settlings keep.
\<close>

lemma tree_walk_inv:
  fixes w :: "tree world"
  assumes stl: "\<And>u p. walk_inv ru regex tgt L N u \<Longrightarrow> X u \<Longrightarrow> p \<in> set (inflight u) \<Longrightarrow>
                  X (moveFile_settled (tree_host co ru sc) settings p u)"
    and fol: "\<And>u f n q. walk_inv ru regex tgt L N u \<Longrightarrow> X u \<Longrightarrow> R f \<Longrightarrow>
                  TFolder n q \<in> set (tree_children (vault u) f) \<Longrightarrow> R (TFolder n q)"
    and tst: "\<And>u f n q. walk_inv ru regex tgt L N u \<Longrightarrow> X u \<Longrightarrow> R f \<Longrightarrow>
                  TFile n q \<in> set (tree_children (vault u) f) \<Longrightarrow> ru regex n \<noteq> Inr True \<Longrightarrow>
                  X (emit (CallTest (TFile n q)) u)"
    and iss: "\<And>u f n q. walk_inv ru regex tgt L N u \<Longrightarrow> X u \<Longrightarrow> R f \<Longrightarrow>
                  TFile n q \<in> set (tree_children (vault u) f) \<Longrightarrow> ru regex n = Inr True \<Longrightarrow>
                  X (snd (moveFile (TFile n q) (tgt @ ''/'' @ n) (emit (CallTest (TFile n q)) u)))"
    and inv: "walk_inv ru regex tgt L N w" and x: "X w" and r: "R f"
    and run: "processFolder fuel (tree_host co ru sc) settings regex tgt f w = Some (res, w')"
  shows "walk_inv ru regex tgt L N w' \<and> X w'"
proof -
  let ?Q = "\<lambda>u. walk_inv ru regex tgt L N u \<and> X u"
  let ?H = "tree_host co ru sc"
  have stl': "?Q (moveFile_settled ?H settings p u)" if "?Q u" "p \<in> set (inflight u)" for u p
    using that walk_inv_settle [of ru regex tgt L N u p co sc settings] stl [of u p] by blast
  have fol': "R (TFolder n q)"
    if "?Q u" "R g" "TFolder n q \<in> set (children ?H (vault u) g)" for u g n q
    using that fol [of u g n q] by simp
  have tst': "?Q (emit (CallTest (TFile n q)) u)"
    if "?Q u" "R g" "TFile n q \<in> set (children ?H (vault u) g)" "test ?H regex n \<noteq> Inr True"
    for u g n q
    using that tst [of u g n q] by simp
  have iss': "?Q (snd (moveFile (TFile n q) (tgt @ ''/'' @ n) (emit (CallTest (TFile n q)) u)))"
    if "?Q u" "R g" "TFile n q \<in> set (children ?H (vault u) g)" "test ?H regex n = Inr True"
    for u g n q
    using that iss [of u g n q] walk_inv_issue [of ru regex tgt L N u n q g] by simp
  have q0: "?Q w" using inv x by simp
  show ?thesis
    by (rule processFolder_inv [where Q = ?Q and R = R, OF stl' fol' tst' iss' q0 r run])
qed

lemma walk_inv_walk:
  fixes w :: "tree world"
  assumes inv: "walk_inv ru regex tgt L N w"
    and run: "processFolder fuel (tree_host co ru sc) settings regex tgt f w = Some (res, w')"
  shows "walk_inv ru regex tgt L N w'"
  using tree_walk_inv [where X = "\<lambda>_. True" and R = "\<lambda>_. True", OF _ _ _ _ inv _ _ run]
  by simp

subsection \<open>The walk returns\<close>

lemma children_length: "length (tree_children v f) \<le> length v"
  by (simp add: tree_children_def)

lemma forLoop_returns:
  fixes w :: "tree world"
  assumes rec: "\<And>u n q. walk_inv ru regex tgt L N u \<Longrightarrow>
                  TFolder n q \<in> set (tree_children (vault u) folder) \<Longrightarrow>
                  \<exists>r u'. recurse (TFolder n q) u = Some (r, u') \<and> walk_inv ru regex tgt L N u' \<and>
                         ((\<forall>n. \<exists>b. ru regex n = Inr b) \<longrightarrow> r = Fulfilled)"
  shows "walk_inv ru regex tgt L N w \<Longrightarrow> i \<le> N \<Longrightarrow> N < steps + i \<Longrightarrow>
         \<exists>r w'. forLoop steps (tree_host co ru sc) settings regex tgt recurse folder i ps w = Some (r, w') \<and>
                ((\<forall>n. \<exists>b. ru regex n = Inr b) \<longrightarrow> r = Fulfilled)"
proof (induction steps arbitrary: i ps w)
  case 0
  then show ?case by simp
next
  case (Suc steps)
  let ?cs = "tree_children (vault w) folder"
  have len: "length ?cs \<le> N"
    using children_length [of "vault w" folder] Suc.prems(1) by (simp add: walk_inv_def)
  show ?case
  proof (cases "i < length ?cs")
    case False
    then show ?thesis by (simp add: Let_def)
  next
    case True
    then have mem: "?cs ! i \<in> set ?cs" by simp
    from True len have i': "Suc i \<le> N" by simp
    from Suc.prems(3) have st: "N < steps + Suc i" by simp
    show ?thesis
    proof (cases "?cs ! i")
      case (TFolder n q)
      from rec [OF Suc.prems(1), of n q] mem TFolder obtain r1 w1 where
        r1: "recurse (TFolder n q) w = Some (r1, w1)" "walk_inv ru regex tgt L N w1"
          "(\<forall>n. \<exists>b. ru regex n = Inr b) \<longrightarrow> r1 = Fulfilled"
        by auto
      show ?thesis
      proof (cases r1)
        case Fulfilled
        from Suc.IH [OF r1(2) i' st, of ps] True TFolder r1(1) Fulfilled show ?thesis
          by (simp add: Let_def)
      next
        case (Rejected e)
        with r1(3) True TFolder r1(1) show ?thesis by (auto simp: Let_def)
      qed
    next
      case (TFile n q)
      let ?wt = "emit (CallTest (TFile n q)) w"
      have it: "walk_inv ru regex tgt L N ?wt" using Suc.prems(1) by simp
      show ?thesis
      proof (cases "ru regex n")
        case (Inl e)
        then have "\<not> (\<forall>n. \<exists>b. ru regex n = Inr b)" by (auto intro!: exI [of _ n])
        with True TFile Inl show ?thesis by (simp add: Let_def)
      next
        case (Inr b)
        show ?thesis
        proof (cases b)
          case False
          from Suc.IH [OF it i' st, of ps] True TFile Inr False show ?thesis
            by (simp add: Let_def)
        next
          case b: True
          obtain pr w2 where m: "moveFile (TFile n q) (tgt @ ''/'' @ n) ?wt = (pr, w2)"
            by (cases "moveFile (TFile n q) (tgt @ ''/'' @ n) ?wt")
          have "walk_inv ru regex tgt L N w2"
            using walk_inv_issue [OF Suc.prems(1), of n q folder] mem TFile Inr b m by simp
          from Suc.IH [OF this i' st, of "ps @ [pr]"] True TFile Inr b m show ?thesis
            by (simp add: Let_def)
        qed
      qed
    qed
  qed
qed

text \<open>
  With fuel beyond the number of entries and the depth a path can have, the walk of a
  folder comes back, on every schedule; it fulfils when the matcher answers on every
  name.
\<close>

lemma processFolder_returns:
  fixes w :: "tree world"
  shows "walk_inv ru regex tgt L N w \<Longrightarrow>
         N + 2 + (length tgt + 1 + L - length (path f)) \<le> fuel \<Longrightarrow>
         \<exists>r w'. processFolder fuel (tree_host co ru sc) settings regex tgt f w = Some (r, w') \<and>
                ((\<forall>n. \<exists>b. ru regex n = Inr b) \<longrightarrow> r = Fulfilled)"
proof (induction fuel arbitrary: f w)
  case 0
  then show ?case by simp
next
  case (Suc fuel)
  let ?H = "tree_host co ru sc"
  have rec: "\<exists>r u'. processFolder fuel ?H settings regex tgt (TFolder n q) u = Some (r, u') \<and>
                walk_inv ru regex tgt L N u' \<and> ((\<forall>n. \<exists>b. ru regex n = Inr b) \<longrightarrow> r = Fulfilled)"
    if inv: "walk_inv ru regex tgt L N u" and c: "TFolder n q \<in> set (tree_children (vault u) f)"
    for u n q
  proof -
    from child_handle [OF c] obtain e where
      ch: "child_of (path f) q" and e: "(q, e) \<in> set (vault u)" by auto
    from ch have "length (path f) < length q" by (auto dest: child_of_beneath beneath_length)
    moreover from inv e have "length q \<le> length tgt + 1 + L"
      by (auto simp: walk_inv_def sound_def bounded_def)
    ultimately have "N + 2 + (length tgt + 1 + L - length (path (TFolder n q))) \<le> fuel"
      using Suc.prems(2) by simp
    from Suc.IH [OF inv this] obtain r u' where
      r: "processFolder fuel ?H settings regex tgt (TFolder n q) u = Some (r, u')"
        "(\<forall>n. \<exists>b. ru regex n = Inr b) \<longrightarrow> r = Fulfilled"
      by blast
    from walk_inv_walk [OF inv r(1)] r show ?thesis by blast
  qed
  have "N < fuel + 0" using Suc.prems(2) by simp
  from forLoop_returns [where recurse = "processFolder fuel ?H settings regex tgt"
      and folder = f, OF rec Suc.prems(1) _ this, of co sc settings "[]"]
  show ?case by simp
qed

subsection \<open>Where a file is after the walk\<close>

lemma file_state_settle:
  fixes w :: "tree world"
  assumes fs: "file_state ru regex tgt p i w" and g: "good ru regex tgt L pr"
  shows "file_state ru regex tgt p i (moveFile_settled (tree_host co ru sc) settings pr w)"
proof -
  from g obtain k q where pr: "pr = (k, TFile (basename q) q, tgt @ ''/'' @ basename q)"
    and mq: "ru regex (basename q) = Inr True"
    by (auto simp: good_def split: prod.splits TAbstractFile.splits)
  let ?np = "tgt @ ''/'' @ basename q"
  let ?npp = "tgt @ ''/'' @ basename p"
  let ?c = "TFile (basename q) q"
  let ?w = "moveFile_settled (tree_host co ru sc) settings pr w"
  let ?rf = "RenameFulfilled (TFile (basename p) p) ?npp"
  from settled_tree_cases [of w ?c ?np co ru sc settings k]
  consider (fail) e where "vault ?w = vault w"
      "trace ?w = trace w @ [RenameRejected ?c ?np e, ConsoleError (FailedToMoveFile (path ?c)) e,
                        Notice (FailedToMoveFile (path ?c))]"
    | (ok) v' c' where "tree_rename (vault w) ?c ?np = Inr (v', c')" "vault ?w = v'"
      "trace ?w = trace w @ RenameFulfilled ?c ?np #
               (if showMoveNotification settings then [Notice (MovedFile ?np ?np)] else []) @
               [ConsoleLog (MovedFile ?np ?np)]"
    unfolding pr by blast
  then show ?thesis
  proof cases
    case fail
    then have "?rf \<in> set (trace ?w) \<longleftrightarrow> ?rf \<in> set (trace w)" by simp
    with fs fail(1) show ?thesis by (simp add: file_state_def)
  next
    case ok
    from tree_rename_Inr [OF ok(1)] have free: "map_of (vault w) ?np = None"
      and at: "map_of (vault w) q \<noteq> None" by auto
    have m: "map_of (vault ?w) x =
        (if x = ?np then map_of (vault w) q else if x = q then None else map_of (vault w) x)" for x
      using map_of_rename [OF ok(1), of x] ok(2) by simp
    have rf: "?rf \<in> set (trace ?w) \<longleftrightarrow> ?rf \<in> set (trace w) \<or> q = p"
      using ok(3) by auto
    from fs consider
      (A) "map_of (vault w) p = Some (FileNode i)" "?rf \<notin> set (trace w)"
      | (B) "map_of (vault w) p = None" "map_of (vault w) ?npp = Some (FileNode i)"
            "ru regex (basename p) = Inr True" "?rf \<in> set (trace w)"
      by (auto simp: file_state_def)
    then show ?thesis
    proof cases
      case A
      from A(1) free have pnp: "p \<noteq> ?np" by auto
      show ?thesis
      proof (cases "q = p")
        case True
        with A(1) pnp mq m [of p] m [of ?npp] rf show ?thesis
          by (simp add: file_state_def)
      next
        case False
        with A pnp m [of p] rf show ?thesis by (simp add: file_state_def)
      qed
    next
      case B
      have bq: "basename ?npp = basename p" by (rule basename_append [OF basename_no_slash])
      have bn: "basename ?np = basename q" by (rule basename_append [OF basename_no_slash])
      from B(2) free have n1: "?npp \<noteq> ?np" by auto
      have n2: "q \<noteq> ?npp"
      proof
        assume "q = ?npp"
        with bq have "basename q = basename p" by simp
        with n1 show False by simp
      qed
      have n3: "p \<noteq> ?np"
      proof
        assume "p = ?np"
        with bn have "basename p = basename q" by simp
        with n1 show False by simp
      qed
      from B(1) at have n4: "p \<noteq> q" by auto
      from B n1 n2 n3 n4 m [of p] m [of ?npp] rf show ?thesis
        by (simp add: file_state_def)
    qed
  qed
qed

lemma file_state_emit:
  "(\<forall>c np. e \<noteq> RenameFulfilled c np) \<Longrightarrow>
   file_state ru regex tgt p i (emit e w) = file_state ru regex tgt p i w"
  by (auto simp: file_state_def)

lemma file_state_issue:
  "file_state ru regex tgt p i (snd (moveFile c np (emit (CallTest c') w))) =
   file_state ru regex tgt p i w"
  by (auto simp: file_state_def moveFile_def Let_def)

lemma file_state_walk:
  fixes w :: "tree world"
  assumes inv: "walk_inv ru regex tgt L N w"
    and fs: "file_state ru regex tgt p i w"
    and run: "processFolder fuel (tree_host co ru sc) settings regex tgt f w = Some (res, w')"
  shows "file_state ru regex tgt p i w'"
proof -
  let ?X = "file_state ru regex tgt p i"
  have stl: "?X (moveFile_settled (tree_host co ru sc) settings pr u)"
    if "walk_inv ru regex tgt L N u" "?X u" "pr \<in> set (inflight u)" for u pr
    using that file_state_settle [of ru regex tgt p i u L pr co sc settings]
    by (simp add: walk_inv_def)
  have tst: "?X (emit (CallTest (TFile n q)) u)" if "?X u" for u n q
    using that by (simp add: file_state_emit)
  have iss: "?X (snd (moveFile (TFile n q) (tgt @ ''/'' @ n) (emit (CallTest (TFile n q)) u)))"
    if "?X u" for u n q
    using that by (simp only: file_state_issue)
  from tree_walk_inv [where X = ?X and R = "\<lambda>_. True", OF stl TrueI tst iss inv fs TrueI run]
  show ?thesis by simp
qed

subsection \<open>The reports of the outcomes\<close>



subsection \<open>What a walk leaves in place\<close>

lemma child_below:
  assumes "c \<in> set (tree_children v g)" and "path g = s \<or> beneath s (path g)"
  shows "beneath s (path c)"
  using child_handle [OF assms(1)] assms(2)
  by (auto dest: child_of_beneath intro: beneath_trans)

text \<open>
  A walk of \<open>f\<close> that starts with no rename in flight removes no entry that is not below
  \<open>f\<close>.
\<close>

lemma keeps_outside:
  fixes w :: "tree world"
  assumes inv: "walk_inv ru regex tgt L N w" and fl: "inflight w = []"
    and x: "(x, e) \<in> set (vault w)" and nb: "\<not> beneath (path f) x"
    and run: "processFolder fuel (tree_host co ru sc) settings regex tgt f w = Some (res, w')"
  shows "(x, e) \<in> set (vault w')"
proof -
  let ?H = "tree_host co ru sc"
  let ?X = "\<lambda>u :: tree world. (x, e) \<in> set (vault u) \<and>
      (\<forall>p \<in> set (inflight u). beneath (path f) (path (fst (snd p))))"
  let ?R = "\<lambda>g. path g = path f \<or> beneath (path f) (path g)"
  have stl: "?X (moveFile_settled ?H settings p u)"
    if "walk_inv ru regex tgt L N u" and xu: "?X u" and p: "p \<in> set (inflight u)" for u p
  proof -
    obtain k c np where pk: "p = (k, c, np)" by (cases p)
    from xu p pk have b: "beneath (path f) (path c)" by auto
    with nb have ne: "x \<noteq> path c" by auto
    have fl': "\<forall>p' \<in> set (inflight (moveFile_settled ?H settings p u)).
        beneath (path f) (path (fst (snd p')))"
      using xu by auto
    from settled_tree_cases [of u c np co ru sc settings k]
    consider (fail) "vault (moveFile_settled ?H settings p u) = vault u"
      | (ok) v' c' where "tree_rename (vault u) c np = Inr (v', c')"
          "vault (moveFile_settled ?H settings p u) = v'"
      unfolding pk by blast
    then show ?thesis
    proof cases
      case fail
      with xu fl' show ?thesis by simp
    next
      case ok
      from tree_rename_Inr [OF ok(1)] obtain e' where
        "v' = filter (\<lambda>(p, e'). p \<noteq> path c) (vault u) @ [(np, e')]" by blast
      with xu ne have "(x, e) \<in> set v'" by auto
      with ok(2) fl' show ?thesis by simp
    qed
  qed
  have fol: "?R (TFolder n q)"
    if "walk_inv ru regex tgt L N u" "?X u" "?R g" "TFolder n q \<in> set (tree_children (vault u) g)"
    for u g n q
    using child_below [OF that(4), of "path f"] that(3) by simp
  have tst: "?X (emit (CallTest (TFile n q)) u)"
    if "walk_inv ru regex tgt L N u" "?X u" "?R g" "TFile n q \<in> set (tree_children (vault u) g)"
      "ru regex n \<noteq> Inr True"
    for u g n q
    using that(2) by simp
  have iss: "?X (snd (moveFile (TFile n q) (tgt @ ''/'' @ n) (emit (CallTest (TFile n q)) u)))"
    if "walk_inv ru regex tgt L N u" "?X u" "?R g" "TFile n q \<in> set (tree_children (vault u) g)"
      "ru regex n = Inr True"
    for u g n q
    using child_below [OF that(4), of "path f"] that(2,3)
    by (auto simp: moveFile_def Let_def emit_def)
  have x0: "?X w" using x fl by simp
  have r0: "?R f" by simp
  have "walk_inv ru regex tgt L N w' \<and> ?X w'"
    by (rule tree_walk_inv [where X = ?X and R = ?R, OF stl fol tst iss inv x0 r0 run])
  then show ?thesis by blast
qed

text \<open>A walk adds entries only as direct children of the target.\<close>

lemma adds_only_target:
  fixes w :: "tree world"
  assumes inv: "walk_inv ru regex tgt L N w"
    and run: "processFolder fuel (tree_host co ru sc) settings regex tgt f w = Some (res, w')"
    and x: "(x, e) \<in> set (vault w')"
  shows "(x, e) \<in> set (vault w) \<or> child_of tgt x"
proof -
  let ?H = "tree_host co ru sc"
  let ?X = "\<lambda>u :: tree world. \<forall>x e. (x, e) \<in> set (vault u) \<longrightarrow>
      (x, e) \<in> set (vault w) \<or> child_of tgt x"
  have stl: "?X (moveFile_settled ?H settings p u)"
    if inv: "walk_inv ru regex tgt L N u" and xu: "?X u" and p: "p \<in> set (inflight u)" for u p
  proof -
    from inv p have "good ru regex tgt L p" by (simp add: walk_inv_def)
    then obtain k q where pq: "p = (k, TFile (basename q) q, tgt @ ''/'' @ basename q)"
      by (auto simp: good_def split: prod.splits TAbstractFile.splits)
    have ch: "child_of tgt (tgt @ ''/'' @ basename q)"
      using basename_no_slash [of q] by (auto simp: child_of_iff)
    from settled_tree_cases [of u "TFile (basename q) q" "tgt @ ''/'' @ basename q" co ru sc settings k]
    consider (fail) "vault (moveFile_settled ?H settings p u) = vault u"
      | (ok) v' c' where
          "tree_rename (vault u) (TFile (basename q) q) (tgt @ ''/'' @ basename q) = Inr (v', c')"
          "vault (moveFile_settled ?H settings p u) = v'"
      unfolding pq by blast
    then show ?thesis
    proof cases
      case fail
      with xu show ?thesis by simp
    next
      case ok
      from tree_rename_Inr [OF ok(1)] obtain e' where
        "v' = filter (\<lambda>(p, e'). p \<noteq> q) (vault u) @ [(tgt @ ''/'' @ basename q, e')]" by auto
      with xu ch ok(2) show ?thesis by auto
    qed
  qed
  have tst: "?X (emit (CallTest (TFile n q)) u)" if "?X u" for u n q
    using that by simp
  have iss: "?X (snd (moveFile (TFile n q) (tgt @ ''/'' @ n) (emit (CallTest (TFile n q)) u)))"
    if "?X u" for u n q
    using that by simp
  have x0: "?X w" by simp
  have "walk_inv ru regex tgt L N w' \<and> ?X w'"
    by (rule tree_walk_inv [where X = ?X and R = "\<lambda>_. True", OF stl TrueI tst iss inv x0 TrueI run])
  with x show ?thesis by blast
qed

text \<open>
  A walk of a folder under which no file has a matching name, started with no rename in
  flight, tests names that do not match and does nothing else.
\<close>

lemma quiet_walk:
  fixes w :: "tree world"
  assumes fl: "inflight w = []"
    and nomatch: "\<forall>x i. (x, FileNode i) \<in> set (vault w) \<longrightarrow> beneath (path f) x \<longrightarrow>
                   ru regex (basename x) \<noteq> Inr True"
    and run: "processFolder fuel (tree_host co ru sc) settings regex tgt f w = Some (res, w')"
  shows "\<exists>es. w' = w\<lparr>trace := trace w @ es\<rparr> \<and>
           (\<forall>x \<in> set es. \<exists>c. x = CallTest c \<and> ru regex (name c) \<noteq> Inr True)"
proof -
  let ?H = "tree_host co ru sc"
  let ?Q = "\<lambda>u :: tree world. \<exists>es. u = w\<lparr>trace := trace w @ es\<rparr> \<and>
           (\<forall>x \<in> set es. \<exists>c. x = CallTest c \<and> ru regex (name c) \<noteq> Inr True)"
  let ?R = "\<lambda>g. path g = path f \<or> beneath (path f) (path g)"
  have stl: "?Q (moveFile_settled ?H settings p u)" if "?Q u" "p \<in> set (inflight u)" for u p
    using that fl by auto
  have fol: "?R (TFolder n q)"
    if "?Q u" "?R g" "TFolder n q \<in> set (children ?H (vault u) g)" for u g n q
    using child_below [of "TFolder n q" "vault u" g "path f"] that(2,3) by simp
  have tst: "?Q (emit (CallTest (TFile n q)) u)"
    if "?Q u" "?R g" "TFile n q \<in> set (children ?H (vault u) g)" "test ?H regex n \<noteq> Inr True"
    for u g n q
  proof -
    from that(1) obtain es where es: "u = w\<lparr>trace := trace w @ es\<rparr>"
      "\<forall>x \<in> set es. \<exists>c. x = CallTest c \<and> ru regex (name c) \<noteq> Inr True" by blast
    from that(4) es show ?thesis
      by (intro exI [of _ "es @ [CallTest (TFile n q)]"]) (auto simp: emit_def)
  qed
  have iss: "?Q (snd (moveFile (TFile n q) (tgt @ ''/'' @ n) (emit (CallTest (TFile n q)) u)))"
    if "?Q u" "?R g" "TFile n q \<in> set (children ?H (vault u) g)" "test ?H regex n = Inr True"
    for u g n q
  proof -
    from that(1) have v: "vault u = vault w" by auto
    from that(3) v obtain x e where xe: "(x, e) \<in> set (vault w)" "TFile n q = handle_of (x, e)"
      by (auto simp: tree_children_iff)
    then obtain i where "e = FileNode i" "x = q" "n = basename q" by (cases e) auto
    moreover have "beneath (path f) q"
      using child_below [of "TFile n q" "vault u" g "path f"] that(2,3) by simp
    ultimately have "ru regex n \<noteq> Inr True" using nomatch xe(1) by blast
    with that(4) show ?thesis by simp
  qed
  have q0: "?Q w" by (intro exI [of _ "[]"]) simp
  have r0: "?R f" by simp
  show ?thesis
    by (rule processFolder_inv [where Q = ?Q and R = ?R, OF stl fol tst iss q0 r0 run])
qed

subsection \<open>What the walk tests when renames complete in turn\<close>












subsection \<open>A run of a rule from a fresh world\<close>

text \<open>The world in which an enabled rule starts compiling, once its target is there.\<close>

lemma target_ensured:
  assumes wf: "distinct (map fst v)"
    and en: "enabled rule"
    and src: "tree_get v (sourcePath rule) = Some (TFolder sn sp)"
    and tg: "tree_get v (targetPath rule) \<noteq> None \<or> (\<exists>v'. tree_createFolder v (targetPath rule) = Inr v')"
  obtains w0 :: "tree world" where
    "executeMoveRule fuel (tree_host co ru sc) settings rule (start v) =
       compile_and_process fuel (tree_host co ru sc) settings rule (TFolder sn sp) w0"
    and "\<forall>p e. map_of v p = Some e \<longrightarrow> map_of (vault w0) p = Some e"
    and "distinct (map fst (vault w0))"
    and "\<forall>x \<in> set (trace w0). \<exists>s. x = CallCreateFolder s"
    and "inflight w0 = []"
    and "longest (vault w0) \<le> length (targetPath rule) + longest v"
    and "length (vault w0) \<le> length v + 1"
    and "map_of (vault w0) (targetPath rule) \<noteq> None"
    and "\<forall>x i. (x, FileNode i) \<in> set (vault w0) \<longrightarrow> (x, FileNode i) \<in> set v"
    and "set v \<subseteq> set (vault w0)"
proof (cases "tree_get v (targetPath rule)")
  case (Some t)
  show ?thesis
    by (rule that [of "start v"])
      (use Some en src wf in \<open>auto simp: executeMoveRule_def start_def tree_get_def split: option.splits\<close>)
next
  case None
  let ?tgt = "targetPath rule"
  let ?w = "\<lparr>vault = v @ [(?tgt, FolderNode)], trace = [CallCreateFolder ?tgt], inflight = []\<rparr>"
  from None tg obtain v' where v': "tree_createFolder v ?tgt = Inr v'" by auto
  then have v'eq: "v' = v @ [(?tgt, FolderNode)]" and free: "map_of v ?tgt = None"
    by (auto simp: tree_createFolder_def split: if_splits)
  have l: "longest (v @ [(?tgt, FolderNode)]) \<le> length ?tgt + longest v"
    by (induction v) (auto simp: longest_def)
  show ?thesis
  proof (rule that [of ?w])
    show "executeMoveRule fuel (tree_host co ru sc) settings rule (start v) =
        compile_and_process fuel (tree_host co ru sc) settings rule (TFolder sn sp) ?w"
      using None en src v' by (simp add: executeMoveRule_def start_def emit_def v'eq)
    show "distinct (map fst (vault ?w))"
      using wf free by (auto simp: map_of_eq_None_iff)
    show "\<forall>p e. map_of v p = Some e \<longrightarrow> map_of (vault ?w) p = Some e"
      by (simp add: map_add_def)
    show "map_of (vault ?w) ?tgt \<noteq> None"
      using free by (simp add: map_add_def)
  qed (use l in auto)
qed


section \<open>The rule runner: gates and errors\<close>

text \<open>
  C5. A rule with \<open>enabled = false\<close> changes nothing in the tree: the run ends at once,
  whatever the fuel, with the tree as it was, no call into the host, and the trace longer
  by the notice that the rule is disabled and by nothing else.
\<close>

theorem disabled_rule_changes_nothing:
  "\<not> enabled rule \<Longrightarrow>
   executeMoveRule fuel h settings rule w =
     Some (Fulfilled, w\<lparr>trace := trace w @ [Notice (RuleDisabled (rule_name rule))]\<rparr>)"
  by (simp add: executeMoveRule_def emit_def)

theorem disabled_rule_changes_nothing_witness:
  "\<not> enabled (pdf_rule\<lparr>enabled := False\<rparr>) \<and>
   executeMoveRule 3 fragment_host settings0 (pdf_rule\<lparr>enabled := False\<rparr>) (start inbox_tree) =
     Some (Fulfilled, \<lparr>vault = inbox_tree, trace = [Notice (RuleDisabled ''pdfs'')], inflight = []\<rparr>)"
  using disabled_rule_changes_nothing
    [of "pdf_rule\<lparr>enabled := False\<rparr>" 3 fragment_host settings0 "start inbox_tree"]
  by (simp add: start_def pdf_rule_def)

text \<open>
  C8. When \<open>sourcePath\<close> does not resolve to a folder (it resolves to nothing, or to a
  file), the run ends before any call that touches the tree: the tree is as it was and
  the trace is longer by one notice only, no folder creation and no rename. For a rule
  that passed the gate of C5 (it is enabled) that notice is "source folder not found";
  a disabled rule has ended before the source is looked up, with the notice of C5.
\<close>

theorem source_not_a_folder_aborts:
  assumes "\<forall>n p. getAbstractFileByPath h (vault w) (sourcePath rule) \<noteq> Some (TFolder n p)"
  shows "executeMoveRule fuel h settings rule w =
     Some (Fulfilled, w\<lparr>trace := trace w @
        [Notice (if enabled rule then SourceFolderNotFound (sourcePath rule)
                 else RuleDisabled (rule_name rule))]\<rparr>)"
  using assms
  by (auto simp: executeMoveRule_def emit_def split: option.splits TAbstractFile.splits)

theorem source_not_a_folder_aborts_witness:
  "(\<forall>n p. getAbstractFileByPath fragment_host (vault (start inbox_tree))
             (sourcePath (pdf_rule\<lparr>sourcePath := ''Inbox/a.pdf''\<rparr>)) \<noteq> Some (TFolder n p)) \<and>
   executeMoveRule 3 fragment_host settings0 (pdf_rule\<lparr>sourcePath := ''Inbox/a.pdf''\<rparr>)
       (start inbox_tree) =
     Some (Fulfilled,
           \<lparr>vault = inbox_tree, trace = [Notice (SourceFolderNotFound ''Inbox/a.pdf'')],
            inflight = []\<rparr>)"
proof -
  have h: "\<forall>n p. getAbstractFileByPath fragment_host (vault (start inbox_tree))
             (sourcePath (pdf_rule\<lparr>sourcePath := ''Inbox/a.pdf''\<rparr>)) \<noteq> Some (TFolder n p)"
    by (simp add: fragment_host_def tree_host_def start_def tree_get_def pdf_rule_def
        inbox_tree_def)
  show ?thesis
    using h source_not_a_folder_aborts [OF h, of 3 settings0]
    by (simp add: start_def pdf_rule_def)
qed

text \<open>
  C2, as stated, fails: the folder of the target is looked up and created before the
  pattern is compiled. On the example tree, where \<open>Inbox/PDFs\<close> does not exist, the rule
  with the pattern \<open>[\<close> ends with the notice of the invalid pattern and with the folder
  \<open>Inbox/PDFs\<close> created.
\<close>

theorem invalid_pattern_counterexample:
  "fragment_RegExp ''['' = Inl (SyntaxError ''Unterminated character class'') \<and>
   executeMoveRule 3 fragment_host settings0 (pdf_rule\<lparr>filePattern := ''[''\<rparr>) (start inbox_tree) =
     Some (Fulfilled,
           \<lparr>vault = inbox_tree @ [(''Inbox/PDFs'', FolderNode)],
            trace = [CallCreateFolder ''Inbox/PDFs'',
                     Notice (InvalidRegularExpression ''[''),
                     ConsoleErrorObject (SyntaxError ''Unterminated character class'')],
            inflight = []\<rparr>) \<and>
   inbox_tree @ [(''Inbox/PDFs'', FolderNode)] \<noteq> inbox_tree"
  by code_simp

text \<open>
  C2, amended. For an enabled rule whose source is a folder and whose pattern does not
  compile, no file is moved and no name is tested. If the target exists, the run reports
  the invalid pattern and the tree is as it was. If the target does not exist, its
  creation is attempted first: when it succeeds the folder stays created and the invalid
  pattern is reported; when it fails the run reports that failure and ends there.
\<close>

theorem invalid_pattern_moves_no_file:
  assumes "enabled rule"
    and "getAbstractFileByPath h (vault w) (sourcePath rule) = Some (TFolder n p)"
    and "RegExp h (filePattern rule) = Inl e"
  shows "executeMoveRule fuel h settings rule w =
     Some (Fulfilled,
       case getAbstractFileByPath h (vault w) (targetPath rule) of
         Some targetFolder \<Rightarrow> catch_invalid rule e w
       | None \<Rightarrow>
          (case createFolder h (vault w) (targetPath rule) of
             Inr v' \<Rightarrow>
               catch_invalid rule e (emit (CallCreateFolder (targetPath rule)) w\<lparr>vault := v'\<rparr>)
           | Inl e' \<Rightarrow>
               emit (Notice (FailedToCreateTargetFolder (targetPath rule)))
                 (emit (CallCreateFolder (targetPath rule)) w)))"
  using assms
  by (auto simp: executeMoveRule_def compile_and_process_def Let_def
      split: option.splits sum.splits)

theorem invalid_pattern_moves_no_file_witness:
  "enabled (pdf_rule\<lparr>filePattern := ''['', targetPath := ''Inbox/Archive''\<rparr>) \<and>
   getAbstractFileByPath fragment_host (vault (start inbox_tree))
     (sourcePath (pdf_rule\<lparr>filePattern := ''['', targetPath := ''Inbox/Archive''\<rparr>)) =
     Some (TFolder ''Inbox'' ''Inbox'') \<and>
   RegExp fragment_host (filePattern (pdf_rule\<lparr>filePattern := ''['', targetPath := ''Inbox/Archive''\<rparr>)) =
     Inl (SyntaxError ''Unterminated character class'') \<and>
   executeMoveRule 3 fragment_host settings0
       (pdf_rule\<lparr>filePattern := ''['', targetPath := ''Inbox/Archive''\<rparr>) (start inbox_tree) =
     Some (Fulfilled,
           \<lparr>vault = inbox_tree,
            trace = [Notice (InvalidRegularExpression ''[''),
                     ConsoleErrorObject (SyntaxError ''Unterminated character class'')],
            inflight = []\<rparr>)"
proof -
  let ?rule = "pdf_rule\<lparr>filePattern := ''['', targetPath := ''Inbox/Archive''\<rparr>"
  have h1: "enabled ?rule" by (simp add: pdf_rule_def)
  have h2: "getAbstractFileByPath fragment_host (vault (start inbox_tree)) (sourcePath ?rule) =
      Some (TFolder ''Inbox'' ''Inbox'')"
    by code_simp
  have h3: "RegExp fragment_host (filePattern ?rule) =
      Inl (SyntaxError ''Unterminated character class'')"
    by code_simp
  have t: "getAbstractFileByPath fragment_host (vault (start inbox_tree)) (targetPath ?rule) =
      Some (TFolder ''Archive'' ''Inbox/Archive'')"
    by code_simp
  have "executeMoveRule 3 fragment_host settings0 ?rule (start inbox_tree) =
      Some (Fulfilled,
            catch_invalid ?rule (SyntaxError ''Unterminated character class'') (start inbox_tree))"
    using invalid_pattern_moves_no_file [OF h1 h2 h3, of 3 settings0] unfolding t by simp
  then show ?thesis
    using h1 h2 h3 by (simp add: catch_invalid_def emit_def start_def pdf_rule_def)
qed

text \<open>
  C9. \<open>executeMoveRule\<close> never hands an exception to its caller: whatever the host, the
  rule and the fuel, its promise does not reject (a failed folder creation, a pattern that
  does not compile, a failed rename and an exception out of the walk are all caught).
  And the \<open>catch\<close> block around the walk does not tell a pattern that failed to compile
  from any other exception: when the pattern compiles and the walk is left by an
  exception, the run reports "Invalid regular expression" all the same.
\<close>

theorem executeMoveRule_never_rejects:
  "(\<forall>e w'. executeMoveRule fuel h settings rule w \<noteq> Some (Rejected e, w')) \<and>
   (enabled rule \<longrightarrow>
    getAbstractFileByPath h (vault w) (sourcePath rule) = Some (TFolder n p) \<longrightarrow>
    getAbstractFileByPath h (vault w) (targetPath rule) = Some t \<longrightarrow>
    RegExp h (filePattern rule) = Inr regex \<longrightarrow>
    processFolder fuel h settings regex (targetPath rule) (TFolder n p) w = Some (Rejected e1, w1) \<longrightarrow>
    executeMoveRule fuel h settings rule w = Some (Fulfilled, catch_invalid rule e1 w1))"
proof -
  have "executeMoveRule fuel h settings rule w \<noteq> Some (Rejected e, w')" for e w'
    by (auto simp: executeMoveRule_def compile_and_process_def Let_def
        split: option.splits sum.splits TAbstractFile.splits completion.splits)
  then show ?thesis
    by (simp add: executeMoveRule_def compile_and_process_def)
qed

theorem executeMoveRule_never_rejects_witness:
  "enabled (pdf_rule\<lparr>targetPath := ''Out''\<rparr>) \<and>
   getAbstractFileByPath throwing_host (vault (start out_tree))
     (sourcePath (pdf_rule\<lparr>targetPath := ''Out''\<rparr>)) = Some (TFolder ''Inbox'' ''Inbox'') \<and>
   getAbstractFileByPath throwing_host (vault (start out_tree))
     (targetPath (pdf_rule\<lparr>targetPath := ''Out''\<rparr>)) = Some (TFolder ''Out'' ''Out'') \<and>
   RegExp throwing_host (filePattern (pdf_rule\<lparr>targetPath := ''Out''\<rparr>)) =
     Inr (CHR 0x5C # ''.pdf$'') \<and>
   executeMoveRule 9 throwing_host settings0 (pdf_rule\<lparr>targetPath := ''Out''\<rparr>) (start out_tree) =
     Some (Fulfilled,
       \<lparr>vault = out_tree,
        trace =
          [CallTest (TFile ''a.pdf'' ''Inbox/a.pdf''),
           CallRename (TFile ''a.pdf'' ''Inbox/a.pdf'') ''Out/a.pdf'',
           CallTest (TFile ''b.txt'' ''Inbox/b.txt''),
           Notice (InvalidRegularExpression (CHR 0x5C # ''.pdf$'')),
           ConsoleErrorObject (Error ''Maximum call stack size exceeded'')],
        inflight = [(1, TFile ''a.pdf'' ''Inbox/a.pdf'', ''Out/a.pdf'')]\<rparr>)"
proof -
  let ?rule = "pdf_rule\<lparr>targetPath := ''Out''\<rparr>"
  let ?w = "\<lparr>vault = out_tree,
        trace =
          [CallTest (TFile ''a.pdf'' ''Inbox/a.pdf''),
           CallRename (TFile ''a.pdf'' ''Inbox/a.pdf'') ''Out/a.pdf'',
           CallTest (TFile ''b.txt'' ''Inbox/b.txt'')],
        inflight = [(1, TFile ''a.pdf'' ''Inbox/a.pdf'', ''Out/a.pdf'')]\<rparr>"
  have h1: "enabled ?rule" by (simp add: pdf_rule_def)
  have h2: "getAbstractFileByPath throwing_host (vault (start out_tree)) (sourcePath ?rule) =
      Some (TFolder ''Inbox'' ''Inbox'')"
    by code_simp
  have h3: "getAbstractFileByPath throwing_host (vault (start out_tree)) (targetPath ?rule) =
      Some (TFolder ''Out'' ''Out'')"
    by code_simp
  have h4: "RegExp throwing_host (filePattern ?rule) = Inr (CHR 0x5C # ''.pdf$'')"
    by code_simp
  have h5: "processFolder 9 throwing_host settings0 (CHR 0x5C # ''.pdf$'') (targetPath ?rule)
      (TFolder ''Inbox'' ''Inbox'') (start out_tree) =
      Some (Rejected (Error ''Maximum call stack size exceeded''), ?w)"
    by code_simp
  have "executeMoveRule 9 throwing_host settings0 ?rule (start out_tree) =
      Some (Fulfilled, catch_invalid ?rule (Error ''Maximum call stack size exceeded'') ?w)"
    using executeMoveRule_never_rejects
      [of 9 throwing_host settings0 ?rule "start out_tree" "''Inbox''" "''Inbox''"
        "TFolder ''Out'' ''Out''" "CHR 0x5C # ''.pdf$''" "Error ''Maximum call stack size exceeded''" ?w]
      h1 h2 h3 h4 h5
    by blast
  then show ?thesis
    using h1 h2 h3 h4 by (simp add: catch_invalid_def emit_def pdf_rule_def)
qed

text \<open>
  C10. When \<open>targetPath\<close> resolves to an entry of the tree, of whatever kind, an enabled
  rule whose source is a folder goes straight to compiling and walking, in the world as
  it is: no folder creation is attempted and no failed creation is reported, and every
  rename the run issues goes to \<open>targetPath/name\<close> of the file it moves.
\<close>

theorem existing_target_is_never_created:
  assumes "enabled rule"
    and "getAbstractFileByPath h (vault w) (sourcePath rule) = Some (TFolder n p)"
    and "getAbstractFileByPath h (vault w) (targetPath rule) = Some t"
  shows "executeMoveRule fuel h settings rule w =
           compile_and_process fuel h settings rule (TFolder n p) w \<and>
         (\<forall>r w'. executeMoveRule fuel h settings rule w = Some (r, w') \<longrightarrow>
            (\<exists>es. trace w' = trace w @ es \<and>
               (\<forall>x \<in> set es.
                  (\<forall>s. x \<noteq> CallCreateFolder s) \<and>
                  (\<forall>s. x \<noteq> Notice (FailedToCreateTargetFolder s)) \<and>
                  (\<forall>c np. x = CallRename c np \<longrightarrow> np = targetPath rule @ ''/'' @ name c))))"
proof -
  have eq: "executeMoveRule fuel h settings rule w =
           compile_and_process fuel h settings rule (TFolder n p) w"
    using assms by (simp add: executeMoveRule_def)
  have "\<exists>es. trace w' = trace w @ es \<and>
               (\<forall>x \<in> set es.
                  (\<forall>s. x \<noteq> CallCreateFolder s) \<and>
                  (\<forall>s. x \<noteq> Notice (FailedToCreateTargetFolder s)) \<and>
                  (\<forall>c np. x = CallRename c np \<longrightarrow> np = targetPath rule @ ''/'' @ name c))"
    if "executeMoveRule fuel h settings rule w = Some (r, w')" for r w'
  proof -
    from that eq compile_and_process_effects obtain es where
      es: "trace w' = trace w @ es" "\<forall>x \<in> set es. walk_effect (targetPath rule) x"
      by metis
    have "(\<forall>s. x \<noteq> CallCreateFolder s) \<and> (\<forall>s. x \<noteq> Notice (FailedToCreateTargetFolder s)) \<and>
          (\<forall>c np. x = CallRename c np \<longrightarrow> np = targetPath rule @ ''/'' @ name c)"
      if "walk_effect (targetPath rule) x" for x
      using that by (auto simp: walk_effect_def)
    with es show ?thesis by blast
  qed
  with eq show ?thesis by blast
qed

theorem existing_target_is_never_created_witness:
  "enabled (pdf_rule\<lparr>targetPath := ''Inbox/b.txt''\<rparr>) \<and>
   getAbstractFileByPath fragment_host (vault (start inbox_tree))
     (sourcePath (pdf_rule\<lparr>targetPath := ''Inbox/b.txt''\<rparr>)) = Some (TFolder ''Inbox'' ''Inbox'') \<and>
   getAbstractFileByPath fragment_host (vault (start inbox_tree))
     (targetPath (pdf_rule\<lparr>targetPath := ''Inbox/b.txt''\<rparr>)) = Some (TFile ''b.txt'' ''Inbox/b.txt'') \<and>
   executeMoveRule 9 fragment_host settings0 (pdf_rule\<lparr>targetPath := ''Inbox/b.txt''\<rparr>)
       (start inbox_tree) =
     compile_and_process 9 fragment_host settings0 (pdf_rule\<lparr>targetPath := ''Inbox/b.txt''\<rparr>)
       (TFolder ''Inbox'' ''Inbox'') (start inbox_tree) \<and>
   executeMoveRule 9 fragment_host settings0 (pdf_rule\<lparr>targetPath := ''Inbox/b.txt''\<rparr>)
       (start inbox_tree) =
     Some (Fulfilled,
       \<lparr>vault = inbox_tree,
        trace =
          [CallTest (TFile ''a.pdf'' ''Inbox/a.pdf''),
           CallRename (TFile ''a.pdf'' ''Inbox/a.pdf'') ''Inbox/b.txt/a.pdf'',
           CallTest (TFile ''b.txt'' ''Inbox/b.txt''),
           CallTest (TFile ''c.pdf'' ''Inbox/Archive/c.pdf''),
           CallRename (TFile ''c.pdf'' ''Inbox/Archive/c.pdf'') ''Inbox/b.txt/c.pdf'',
           RenameRejected (TFile ''c.pdf'' ''Inbox/Archive/c.pdf'') ''Inbox/b.txt/c.pdf''
             (Error ''Destination folder not found''),
           ConsoleError (FailedToMoveFile ''Inbox/Archive/c.pdf'')
             (Error ''Destination folder not found''),
           Notice (FailedToMoveFile ''Inbox/Archive/c.pdf''),
           RenameRejected (TFile ''a.pdf'' ''Inbox/a.pdf'') ''Inbox/b.txt/a.pdf''
             (Error ''Destination folder not found''),
           ConsoleError (FailedToMoveFile ''Inbox/a.pdf'') (Error ''Destination folder not found''),
           Notice (FailedToMoveFile ''Inbox/a.pdf'')],
        inflight = []\<rparr>)"
proof -
  let ?rule = "pdf_rule\<lparr>targetPath := ''Inbox/b.txt''\<rparr>"
  have h1: "enabled ?rule" by (simp add: pdf_rule_def)
  have h2: "getAbstractFileByPath fragment_host (vault (start inbox_tree)) (sourcePath ?rule) =
      Some (TFolder ''Inbox'' ''Inbox'')"
    by code_simp
  have h3: "getAbstractFileByPath fragment_host (vault (start inbox_tree)) (targetPath ?rule) =
      Some (TFile ''b.txt'' ''Inbox/b.txt'')"
    by code_simp
  have h4: "compile_and_process 9 fragment_host settings0 ?rule (TFolder ''Inbox'' ''Inbox'')
      (start inbox_tree) =
     Some (Fulfilled,
       \<lparr>vault = inbox_tree,
        trace =
          [CallTest (TFile ''a.pdf'' ''Inbox/a.pdf''),
           CallRename (TFile ''a.pdf'' ''Inbox/a.pdf'') ''Inbox/b.txt/a.pdf'',
           CallTest (TFile ''b.txt'' ''Inbox/b.txt''),
           CallTest (TFile ''c.pdf'' ''Inbox/Archive/c.pdf''),
           CallRename (TFile ''c.pdf'' ''Inbox/Archive/c.pdf'') ''Inbox/b.txt/c.pdf'',
           RenameRejected (TFile ''c.pdf'' ''Inbox/Archive/c.pdf'') ''Inbox/b.txt/c.pdf''
             (Error ''Destination folder not found''),
           ConsoleError (FailedToMoveFile ''Inbox/Archive/c.pdf'')
             (Error ''Destination folder not found''),
           Notice (FailedToMoveFile ''Inbox/Archive/c.pdf''),
           RenameRejected (TFile ''a.pdf'' ''Inbox/a.pdf'') ''Inbox/b.txt/a.pdf''
             (Error ''Destination folder not found''),
           ConsoleError (FailedToMoveFile ''Inbox/a.pdf'') (Error ''Destination folder not found''),
           Notice (FailedToMoveFile ''Inbox/a.pdf'')],
        inflight = []\<rparr>)"
    by code_simp
  have "executeMoveRule 9 fragment_host settings0 ?rule (start inbox_tree) =
      compile_and_process 9 fragment_host settings0 ?rule (TFolder ''Inbox'' ''Inbox'')
        (start inbox_tree)"
    using existing_target_is_never_created [OF h1 h2 h3, of 9 settings0] by blast
  then show ?thesis
    using h1 h2 h3 h4 by simp
qed

section \<open>The order of the calls and of the outcomes\<close>



section \<open>The walk and the moves on the reference host\<close>




section \<open>One failure among the moves\<close>



section \<open>What the walk visits\<close>

text \<open>
  C6 does not hold of the code: the loop iterates the live list of children, and a
  rename called earlier in the loop can settle while a subfolder is awaited. On the
  schedule \<open>first_come\<close>, in the tree where \<open>Inbox\<close> lists \<open>a.pdf\<close>, the folder \<open>sub\<close>
  and \<open>z.pdf\<close>, with the target \<open>Out\<close> outside the source: the rename of \<open>a.pdf\<close> is
  called, \<open>sub\<close> is entered and the rename of \<open>sub/b.pdf\<close> is called; while the walk
  waits for it, the rename of \<open>a.pdf\<close> settles, so \<open>Inbox\<close> lists \<open>sub\<close> and \<open>z.pdf\<close>
  only, and the loop, which goes on at its third child, finds none. The file \<open>z.pdf\<close>,
  whose name matches, is never tested and stays in \<open>Inbox\<close>. On the schedule \<open>in_turn\<close>
  the same walk tests all three files.
\<close>

theorem live_listing_skips_a_file:
  "map_of batch_tree ''Inbox/z.pdf'' = Some (FileNode 3) \<and>
   fragment_test (CHR 0x5C # ''.pdf$'') ''z.pdf'' = Inr True \<and>
   executeMoveRule 9 eager_host settings0 out_rule (start batch_tree) =
     Some (Fulfilled,
       \<lparr>vault =
          [(''Inbox'', FolderNode), (''Inbox/sub'', FolderNode), (''Inbox/z.pdf'', FileNode 3),
           (''Out'', FolderNode), (''Out/a.pdf'', FileNode 1), (''Out/b.pdf'', FileNode 2)],
        trace =
          [CallTest (TFile ''a.pdf'' ''Inbox/a.pdf''),
           CallRename (TFile ''a.pdf'' ''Inbox/a.pdf'') ''Out/a.pdf'',
           CallTest (TFile ''b.pdf'' ''Inbox/sub/b.pdf''),
           CallRename (TFile ''b.pdf'' ''Inbox/sub/b.pdf'') ''Out/b.pdf'',
           RenameFulfilled (TFile ''a.pdf'' ''Inbox/a.pdf'') ''Out/a.pdf'',
           Notice (MovedFile ''Out/a.pdf'' ''Out/a.pdf''),
           ConsoleLog (MovedFile ''Out/a.pdf'' ''Out/a.pdf''),
           RenameFulfilled (TFile ''b.pdf'' ''Inbox/sub/b.pdf'') ''Out/b.pdf'',
           Notice (MovedFile ''Out/b.pdf'' ''Out/b.pdf''),
           ConsoleLog (MovedFile ''Out/b.pdf'' ''Out/b.pdf'')],
        inflight = []\<rparr>) \<and>
   executeMoveRule 9 fragment_host settings0 out_rule (start batch_tree) =
     Some (Fulfilled,
       \<lparr>vault =
          [(''Inbox'', FolderNode), (''Inbox/sub'', FolderNode), (''Out'', FolderNode),
           (''Out/b.pdf'', FileNode 2), (''Out/a.pdf'', FileNode 1), (''Out/z.pdf'', FileNode 3)],
        trace =
          [CallTest (TFile ''a.pdf'' ''Inbox/a.pdf''),
           CallRename (TFile ''a.pdf'' ''Inbox/a.pdf'') ''Out/a.pdf'',
           CallTest (TFile ''b.pdf'' ''Inbox/sub/b.pdf''),
           CallRename (TFile ''b.pdf'' ''Inbox/sub/b.pdf'') ''Out/b.pdf'',
           RenameFulfilled (TFile ''b.pdf'' ''Inbox/sub/b.pdf'') ''Out/b.pdf'',
           Notice (MovedFile ''Out/b.pdf'' ''Out/b.pdf''),
           ConsoleLog (MovedFile ''Out/b.pdf'' ''Out/b.pdf''),
           CallTest (TFile ''z.pdf'' ''Inbox/z.pdf''),
           CallRename (TFile ''z.pdf'' ''Inbox/z.pdf'') ''Out/z.pdf'',
           RenameFulfilled (TFile ''a.pdf'' ''Inbox/a.pdf'') ''Out/a.pdf'',
           Notice (MovedFile ''Out/a.pdf'' ''Out/a.pdf''),
           ConsoleLog (MovedFile ''Out/a.pdf'' ''Out/a.pdf''),
           RenameFulfilled (TFile ''z.pdf'' ''Inbox/z.pdf'') ''Out/z.pdf'',
           Notice (MovedFile ''Out/z.pdf'' ''Out/z.pdf''),
           ConsoleLog (MovedFile ''Out/z.pdf'' ''Out/z.pdf'')],
        inflight = []\<rparr>)"
  by code_simp

section \<open>A second run of the same rule\<close>

text \<open>
  C7, as stated, fails: the target may lie inside the source. With the rule from
  \<open>Inbox\<close> to \<open>Inbox/PDFs\<close>, the first run moves the one matching file, and no move
  fails; the second run, started in the world the first one left, finds that file under
  the source again, its name matches, and a rename is called for it (and rejected, the
  file being where the rename would put it). This is so on either schedule.
\<close>

theorem nested_target_second_run_counterexample:
  "fragment_test (CHR 0x5C # ''.pdf$'') ''a.pdf'' = Inr True \<and>
   executeMoveRule 9 fragment_host settings0 pdf_rule (start nested_tree) =
     Some (Fulfilled,
       \<lparr>vault =
          [(''Inbox'', FolderNode), (''Inbox/PDFs'', FolderNode),
           (''Inbox/PDFs/a.pdf'', FileNode 1)],
        trace =
          [CallTest (TFile ''a.pdf'' ''Inbox/a.pdf''),
           CallRename (TFile ''a.pdf'' ''Inbox/a.pdf'') ''Inbox/PDFs/a.pdf'',
           RenameFulfilled (TFile ''a.pdf'' ''Inbox/a.pdf'') ''Inbox/PDFs/a.pdf'',
           Notice (MovedFile ''Inbox/PDFs/a.pdf'' ''Inbox/PDFs/a.pdf''),
           ConsoleLog (MovedFile ''Inbox/PDFs/a.pdf'' ''Inbox/PDFs/a.pdf'')],
        inflight = []\<rparr>) \<and>
   executeMoveRule 9 fragment_host settings0 pdf_rule
       \<lparr>vault =
          [(''Inbox'', FolderNode), (''Inbox/PDFs'', FolderNode),
           (''Inbox/PDFs/a.pdf'', FileNode 1)],
        trace =
          [CallTest (TFile ''a.pdf'' ''Inbox/a.pdf''),
           CallRename (TFile ''a.pdf'' ''Inbox/a.pdf'') ''Inbox/PDFs/a.pdf'',
           RenameFulfilled (TFile ''a.pdf'' ''Inbox/a.pdf'') ''Inbox/PDFs/a.pdf'',
           Notice (MovedFile ''Inbox/PDFs/a.pdf'' ''Inbox/PDFs/a.pdf''),
           ConsoleLog (MovedFile ''Inbox/PDFs/a.pdf'' ''Inbox/PDFs/a.pdf'')],
        inflight = []\<rparr> =
     Some (Fulfilled,
       \<lparr>vault =
          [(''Inbox'', FolderNode), (''Inbox/PDFs'', FolderNode),
           (''Inbox/PDFs/a.pdf'', FileNode 1)],
        trace =
          [CallTest (TFile ''a.pdf'' ''Inbox/a.pdf''),
           CallRename (TFile ''a.pdf'' ''Inbox/a.pdf'') ''Inbox/PDFs/a.pdf'',
           RenameFulfilled (TFile ''a.pdf'' ''Inbox/a.pdf'') ''Inbox/PDFs/a.pdf'',
           Notice (MovedFile ''Inbox/PDFs/a.pdf'' ''Inbox/PDFs/a.pdf''),
           ConsoleLog (MovedFile ''Inbox/PDFs/a.pdf'' ''Inbox/PDFs/a.pdf''),
           CallTest (TFile ''a.pdf'' ''Inbox/PDFs/a.pdf''),
           CallRename (TFile ''a.pdf'' ''Inbox/PDFs/a.pdf'') ''Inbox/PDFs/a.pdf'',
           RenameRejected (TFile ''a.pdf'' ''Inbox/PDFs/a.pdf'') ''Inbox/PDFs/a.pdf''
             (Error ''Destination file already exists!''),
           ConsoleError (FailedToMoveFile ''Inbox/PDFs/a.pdf'')
             (Error ''Destination file already exists!''),
           Notice (FailedToMoveFile ''Inbox/PDFs/a.pdf'')],
        inflight = []\<rparr>) \<and>
   executeMoveRule 9 eager_host settings0 pdf_rule (start nested_tree) =
   executeMoveRule 9 fragment_host settings0 pdf_rule (start nested_tree) \<and>
   executeMoveRule 9 eager_host settings0 pdf_rule
       \<lparr>vault =
          [(''Inbox'', FolderNode), (''Inbox/PDFs'', FolderNode),
           (''Inbox/PDFs/a.pdf'', FileNode 1)],
        trace =
          [CallTest (TFile ''a.pdf'' ''Inbox/a.pdf''),
           CallRename (TFile ''a.pdf'' ''Inbox/a.pdf'') ''Inbox/PDFs/a.pdf'',
           RenameFulfilled (TFile ''a.pdf'' ''Inbox/a.pdf'') ''Inbox/PDFs/a.pdf'',
           Notice (MovedFile ''Inbox/PDFs/a.pdf'' ''Inbox/PDFs/a.pdf''),
           ConsoleLog (MovedFile ''Inbox/PDFs/a.pdf'' ''Inbox/PDFs/a.pdf'')],
        inflight = []\<rparr> =
   executeMoveRule 9 fragment_host settings0 pdf_rule
       \<lparr>vault =
          [(''Inbox'', FolderNode), (''Inbox/PDFs'', FolderNode),
           (''Inbox/PDFs/a.pdf'', FileNode 1)],
        trace =
          [CallTest (TFile ''a.pdf'' ''Inbox/a.pdf''),
           CallRename (TFile ''a.pdf'' ''Inbox/a.pdf'') ''Inbox/PDFs/a.pdf'',
           RenameFulfilled (TFile ''a.pdf'' ''Inbox/a.pdf'') ''Inbox/PDFs/a.pdf'',
           Notice (MovedFile ''Inbox/PDFs/a.pdf'' ''Inbox/PDFs/a.pdf''),
           ConsoleLog (MovedFile ''Inbox/PDFs/a.pdf'' ''Inbox/PDFs/a.pdf'')],
        inflight = []\<rparr>"
  by code_simp

text \<open>
  C7, amended. On the reference host, on every schedule, for an enabled rule whose
  target is neither the source nor inside it (source a folder, target there or created,
  pattern compiled, matcher answering on every name, fuel beyond the number of entries
  and the depth of the tree): if the first run has moved every file under the source
  whose base name matches (the rename of each was fulfilled), then the second run,
  started in the world the first one left, ends fulfilled, tests only names that do not
  match, calls no rename and leaves the tree as it is.
\<close>

theorem second_run_matches_nothing:
  assumes tot: "\<And>n. \<exists>b. ru regex n = Inr b"
    and wf: "distinct (map fst v)"
    and en: "enabled rule"
    and src: "tree_get v (sourcePath rule) = Some (TFolder sn sp)"
    and comp: "co (filePattern rule) = Inr regex"
    and tg: "tree_get v (targetPath rule) \<noteq> None \<or> (\<exists>v'. tree_createFolder v (targetPath rule) = Inr v')"
    and out: "targetPath rule \<noteq> sourcePath rule" "\<not> beneath (sourcePath rule) (targetPath rule)"
    and fuel: "length v + 2 * length (targetPath rule) + longest v + 4 \<le> fuel"
    and first: "executeMoveRule fuel (tree_host co ru sc) settings rule (start v) = Some (Fulfilled, w1)"
    and moved: "\<forall>(p, e) \<in> set v. e \<noteq> FolderNode \<longrightarrow> beneath (sourcePath rule) p \<longrightarrow>
              ru regex (basename p) = Inr True \<longrightarrow>
              RenameFulfilled (TFile (basename p) p) (targetPath rule @ ''/'' @ basename p)
                \<in> set (trace w1)"
  shows "\<exists>es. executeMoveRule fuel (tree_host co ru sc) settings rule w1 =
                Some (Fulfilled, w1\<lparr>trace := trace w1 @ es\<rparr>) \<and>
              (\<forall>x \<in> set es. \<exists>c. x = CallTest c \<and> ru regex (name c) = Inr False)"
proof -
  let ?H = "tree_host co ru sc"
  let ?tgt = "targetPath rule"
  let ?f = "TFolder sn sp"
  let ?L = "length ?tgt + longest v"
  let ?N = "length v + 1"
  from tree_get_folder [OF src] have sp: "sp = sourcePath rule" "sn = basename (sourcePath rule)"
    "map_of v (sourcePath rule) = Some FolderNode" by auto
  obtain w0 :: "tree world" where
    run0: "executeMoveRule fuel ?H settings rule (start v) = compile_and_process fuel ?H settings rule ?f w0"
    and keys: "\<forall>p e. map_of v p = Some e \<longrightarrow> map_of (vault w0) p = Some e"
    and d0: "distinct (map fst (vault w0))"
    and t0: "\<forall>x \<in> set (trace w0). \<exists>s. x = CallCreateFolder s"
    and i0: "inflight w0 = []"
    and long: "longest (vault w0) \<le> ?L"
    and len: "length (vault w0) \<le> ?N"
    and tg0: "map_of (vault w0) ?tgt \<noteq> None"
    and files0: "\<forall>x i. (x, FileNode i) \<in> set (vault w0) \<longrightarrow> (x, FileNode i) \<in> set v"
    by (rule target_ensured [OF wf en src tg, of fuel co ru sc settings]) (rule that)
  have inv0: "walk_inv ru regex ?tgt ?L ?N w0"
    using d0 long len i0 by (simp add: walk_inv_def sound_def bounded_longest)
  have fb: "?N + 2 + (length ?tgt + 1 + ?L - length (path ?f)) \<le> fuel" using fuel by simp
  from processFolder_returns [OF inv0 fb, of co sc settings] tot
  obtain w' where "processFolder fuel ?H settings regex ?tgt ?f w0 = Some (Fulfilled, w')"
    by blast
  with run0 comp first
  have walk1: "processFolder fuel ?H settings regex ?tgt ?f w0 = Some (Fulfilled, w1)"
    by (simp add: compile_and_process_def)
  note inv1 = walk_inv_walk [OF inv0 walk1]
  from processFolder_inflight [OF walk1] i0 have i1: "inflight w1 = []" by simp
  from inv1 have d1: "distinct (map fst (vault w1))" by (simp add: walk_inv_def sound_def)
  have nf: "\<not> beneath (path ?f) sp" using beneath_irrefl by simp
  have nt: "\<not> beneath (path ?f) ?tgt" using out(2) sp(1) by simp
  from sp keys have "(sp, FolderNode) \<in> set (vault w0)" by (auto dest: map_of_SomeD)
  from keeps_outside [OF inv0 i0 this nf walk1] d1
  have "map_of (vault w1) sp = Some FolderNode" by simp
  then have src1: "tree_get (vault w1) (sourcePath rule) = Some ?f"
    using sp by (simp add: tree_get_def)
  from tg0 obtain et where "(?tgt, et) \<in> set (vault w0)" by (auto dest: map_of_SomeD)
  from keeps_outside [OF inv0 i0 this nt walk1] d1
  have "map_of (vault w1) ?tgt = Some et" by simp
  then have tg1: "tree_get (vault w1) ?tgt \<noteq> None" by (simp add: tree_get_def)
  have run1: "executeMoveRule fuel ?H settings rule w1 =
      compile_and_process fuel ?H settings rule ?f w1"
    using en src1 tg1 by (auto simp: executeMoveRule_def split: option.splits)
  have nomatch: "\<forall>x i. (x, FileNode i) \<in> set (vault w1) \<longrightarrow> beneath (path ?f) x \<longrightarrow>
                   ru regex (basename x) \<noteq> Inr True"
  proof (intro allI impI notI)
    fix x i
    assume in1: "(x, FileNode i) \<in> set (vault w1)" and bx: "beneath (path ?f) x"
      and m: "ru regex (basename x) = Inr True"
    from bx sp have bs: "beneath (sourcePath rule) x" by simp
    from adds_only_target [OF inv0 walk1 in1]
    have "(x, FileNode i) \<in> set (vault w0)"
    proof
      assume "child_of ?tgt x"
      from beneath_child_of [OF bs this] out show ?thesis by simp
    qed
    with files0 have inv: "(x, FileNode i) \<in> set v" by blast
    with wf have at: "map_of v x = Some (FileNode i)" by simp
    from moved inv bs m
    have rf: "RenameFulfilled (TFile (basename x) x) (?tgt @ ''/'' @ basename x) \<in> set (trace w1)"
      by fastforce
    from keys at t0 have "file_state ru regex ?tgt x i w0" by (auto simp: file_state_def)
    from file_state_walk [OF inv0 this walk1] rf have "map_of (vault w1) x = None"
      by (auto simp: file_state_def)
    with in1 show False by (auto simp: map_of_eq_None_iff intro: rev_image_eqI)
  qed
  from processFolder_returns [OF inv1 fb, of co sc settings] tot
  obtain w2 where walk2: "processFolder fuel ?H settings regex ?tgt ?f w1 = Some (Fulfilled, w2)"
    by blast
  from quiet_walk [OF i1 nomatch walk2] obtain es where
    es: "w2 = w1\<lparr>trace := trace w1 @ es\<rparr>"
      "\<forall>x \<in> set es. \<exists>c. x = CallTest c \<and> ru regex (name c) \<noteq> Inr True"
    by blast
  have "\<exists>c. x = CallTest c \<and> ru regex (name c) = Inr False" if "x \<in> set es" for x
  proof -
    from es(2) that obtain c where c: "x = CallTest c" "ru regex (name c) \<noteq> Inr True" by blast
    from tot [of "name c"] c(2) have "ru regex (name c) = Inr False" by auto
    with c(1) show ?thesis by blast
  qed
  moreover have "executeMoveRule fuel ?H settings rule w1 =
      Some (Fulfilled, w1\<lparr>trace := trace w1 @ es\<rparr>)"
    using run1 comp walk2 es(1) by (simp add: compile_and_process_def)
  ultimately show ?thesis by blast
qed

theorem second_run_matches_nothing_witness:
  "(\<forall>n. \<exists>b. fragment_test (CHR 0x5C # ''.pdf$'') n = Inr b) \<and>
   distinct (map fst inbox_tree) \<and>
   enabled out_rule \<and>
   tree_get inbox_tree (sourcePath out_rule) = Some (TFolder ''Inbox'' ''Inbox'') \<and>
   fragment_RegExp (filePattern out_rule) = Inr (CHR 0x5C # ''.pdf$'') \<and>
   tree_createFolder inbox_tree (targetPath out_rule) = Inr (inbox_tree @ [(''Out'', FolderNode)]) \<and>
   targetPath out_rule \<noteq> sourcePath out_rule \<and>
   \<not> beneath (sourcePath out_rule) (targetPath out_rule) \<and>
   length inbox_tree + 2 * length (targetPath out_rule) + longest inbox_tree + 4 \<le> 40 \<and>
   executeMoveRule 40 eager_host settings0 out_rule (start inbox_tree) =
     Some (Fulfilled,
       \<lparr>vault =
          [(''Inbox'', FolderNode), (''Inbox/b.txt'', FileNode 2), (''Inbox/Archive'', FolderNode),
           (''Out'', FolderNode), (''Out/a.pdf'', FileNode 1), (''Out/c.pdf'', FileNode 3)],
        trace =
          [CallCreateFolder ''Out'',
           CallTest (TFile ''a.pdf'' ''Inbox/a.pdf''),
           CallRename (TFile ''a.pdf'' ''Inbox/a.pdf'') ''Out/a.pdf'',
           CallTest (TFile ''b.txt'' ''Inbox/b.txt''),
           CallTest (TFile ''c.pdf'' ''Inbox/Archive/c.pdf''),
           CallRename (TFile ''c.pdf'' ''Inbox/Archive/c.pdf'') ''Out/c.pdf'',
           RenameFulfilled (TFile ''a.pdf'' ''Inbox/a.pdf'') ''Out/a.pdf'',
           Notice (MovedFile ''Out/a.pdf'' ''Out/a.pdf''),
           ConsoleLog (MovedFile ''Out/a.pdf'' ''Out/a.pdf''),
           RenameFulfilled (TFile ''c.pdf'' ''Inbox/Archive/c.pdf'') ''Out/c.pdf'',
           Notice (MovedFile ''Out/c.pdf'' ''Out/c.pdf''),
           ConsoleLog (MovedFile ''Out/c.pdf'' ''Out/c.pdf'')],
        inflight = []\<rparr>) \<and>
   executeMoveRule 40 eager_host settings0 out_rule
       \<lparr>vault =
          [(''Inbox'', FolderNode), (''Inbox/b.txt'', FileNode 2), (''Inbox/Archive'', FolderNode),
           (''Out'', FolderNode), (''Out/a.pdf'', FileNode 1), (''Out/c.pdf'', FileNode 3)],
        trace =
          [CallCreateFolder ''Out'',
           CallTest (TFile ''a.pdf'' ''Inbox/a.pdf''),
           CallRename (TFile ''a.pdf'' ''Inbox/a.pdf'') ''Out/a.pdf'',
           CallTest (TFile ''b.txt'' ''Inbox/b.txt''),
           CallTest (TFile ''c.pdf'' ''Inbox/Archive/c.pdf''),
           CallRename (TFile ''c.pdf'' ''Inbox/Archive/c.pdf'') ''Out/c.pdf'',
           RenameFulfilled (TFile ''a.pdf'' ''Inbox/a.pdf'') ''Out/a.pdf'',
           Notice (MovedFile ''Out/a.pdf'' ''Out/a.pdf''),
           ConsoleLog (MovedFile ''Out/a.pdf'' ''Out/a.pdf''),
           RenameFulfilled (TFile ''c.pdf'' ''Inbox/Archive/c.pdf'') ''Out/c.pdf'',
           Notice (MovedFile ''Out/c.pdf'' ''Out/c.pdf''),
           ConsoleLog (MovedFile ''Out/c.pdf'' ''Out/c.pdf'')],
        inflight = []\<rparr> =
     Some (Fulfilled,
       \<lparr>vault =
          [(''Inbox'', FolderNode), (''Inbox/b.txt'', FileNode 2), (''Inbox/Archive'', FolderNode),
           (''Out'', FolderNode), (''Out/a.pdf'', FileNode 1), (''Out/c.pdf'', FileNode 3)],
        trace =
          [CallCreateFolder ''Out'',
           CallTest (TFile ''a.pdf'' ''Inbox/a.pdf''),
           CallRename (TFile ''a.pdf'' ''Inbox/a.pdf'') ''Out/a.pdf'',
           CallTest (TFile ''b.txt'' ''Inbox/b.txt''),
           CallTest (TFile ''c.pdf'' ''Inbox/Archive/c.pdf''),
           CallRename (TFile ''c.pdf'' ''Inbox/Archive/c.pdf'') ''Out/c.pdf'',
           RenameFulfilled (TFile ''a.pdf'' ''Inbox/a.pdf'') ''Out/a.pdf'',
           Notice (MovedFile ''Out/a.pdf'' ''Out/a.pdf''),
           ConsoleLog (MovedFile ''Out/a.pdf'' ''Out/a.pdf''),
           RenameFulfilled (TFile ''c.pdf'' ''Inbox/Archive/c.pdf'') ''Out/c.pdf'',
           Notice (MovedFile ''Out/c.pdf'' ''Out/c.pdf''),
           ConsoleLog (MovedFile ''Out/c.pdf'' ''Out/c.pdf'')] @
          [CallTest (TFile ''b.txt'' ''Inbox/b.txt'')],
        inflight = []\<rparr>) \<and>
   (\<exists>es. executeMoveRule 40 eager_host settings0 out_rule
       \<lparr>vault =
          [(''Inbox'', FolderNode), (''Inbox/b.txt'', FileNode 2), (''Inbox/Archive'', FolderNode),
           (''Out'', FolderNode), (''Out/a.pdf'', FileNode 1), (''Out/c.pdf'', FileNode 3)],
        trace =
          [CallCreateFolder ''Out'',
           CallTest (TFile ''a.pdf'' ''Inbox/a.pdf''),
           CallRename (TFile ''a.pdf'' ''Inbox/a.pdf'') ''Out/a.pdf'',
           CallTest (TFile ''b.txt'' ''Inbox/b.txt''),
           CallTest (TFile ''c.pdf'' ''Inbox/Archive/c.pdf''),
           CallRename (TFile ''c.pdf'' ''Inbox/Archive/c.pdf'') ''Out/c.pdf'',
           RenameFulfilled (TFile ''a.pdf'' ''Inbox/a.pdf'') ''Out/a.pdf'',
           Notice (MovedFile ''Out/a.pdf'' ''Out/a.pdf''),
           ConsoleLog (MovedFile ''Out/a.pdf'' ''Out/a.pdf''),
           RenameFulfilled (TFile ''c.pdf'' ''Inbox/Archive/c.pdf'') ''Out/c.pdf'',
           Notice (MovedFile ''Out/c.pdf'' ''Out/c.pdf''),
           ConsoleLog (MovedFile ''Out/c.pdf'' ''Out/c.pdf'')],
        inflight = []\<rparr> =
     Some (Fulfilled,
       \<lparr>vault =
          [(''Inbox'', FolderNode), (''Inbox/b.txt'', FileNode 2), (''Inbox/Archive'', FolderNode),
           (''Out'', FolderNode), (''Out/a.pdf'', FileNode 1), (''Out/c.pdf'', FileNode 3)],
        trace =
          [CallCreateFolder ''Out'',
           CallTest (TFile ''a.pdf'' ''Inbox/a.pdf''),
           CallRename (TFile ''a.pdf'' ''Inbox/a.pdf'') ''Out/a.pdf'',
           CallTest (TFile ''b.txt'' ''Inbox/b.txt''),
           CallTest (TFile ''c.pdf'' ''Inbox/Archive/c.pdf''),
           CallRename (TFile ''c.pdf'' ''Inbox/Archive/c.pdf'') ''Out/c.pdf'',
           RenameFulfilled (TFile ''a.pdf'' ''Inbox/a.pdf'') ''Out/a.pdf'',
           Notice (MovedFile ''Out/a.pdf'' ''Out/a.pdf''),
           ConsoleLog (MovedFile ''Out/a.pdf'' ''Out/a.pdf''),
           RenameFulfilled (TFile ''c.pdf'' ''Inbox/Archive/c.pdf'') ''Out/c.pdf'',
           Notice (MovedFile ''Out/c.pdf'' ''Out/c.pdf''),
           ConsoleLog (MovedFile ''Out/c.pdf'' ''Out/c.pdf'')] @ es,
        inflight = []\<rparr>) \<and>
     (\<forall>x \<in> set es. \<exists>c. x = CallTest c \<and>
        fragment_test (CHR 0x5C # ''.pdf$'') (name c) = Inr False))"
proof -
  let ?re = "CHR 0x5C # ''.pdf$''"
  let ?w1 = "\<lparr>vault =
          [(''Inbox'', FolderNode), (''Inbox/b.txt'', FileNode 2), (''Inbox/Archive'', FolderNode),
           (''Out'', FolderNode), (''Out/a.pdf'', FileNode 1), (''Out/c.pdf'', FileNode 3)],
        trace =
          [CallCreateFolder ''Out'',
           CallTest (TFile ''a.pdf'' ''Inbox/a.pdf''),
           CallRename (TFile ''a.pdf'' ''Inbox/a.pdf'') ''Out/a.pdf'',
           CallTest (TFile ''b.txt'' ''Inbox/b.txt''),
           CallTest (TFile ''c.pdf'' ''Inbox/Archive/c.pdf''),
           CallRename (TFile ''c.pdf'' ''Inbox/Archive/c.pdf'') ''Out/c.pdf'',
           RenameFulfilled (TFile ''a.pdf'' ''Inbox/a.pdf'') ''Out/a.pdf'',
           Notice (MovedFile ''Out/a.pdf'' ''Out/a.pdf''),
           ConsoleLog (MovedFile ''Out/a.pdf'' ''Out/a.pdf''),
           RenameFulfilled (TFile ''c.pdf'' ''Inbox/Archive/c.pdf'') ''Out/c.pdf'',
           Notice (MovedFile ''Out/c.pdf'' ''Out/c.pdf''),
           ConsoleLog (MovedFile ''Out/c.pdf'' ''Out/c.pdf'')],
        inflight = []\<rparr>"
  have h1: "\<exists>b. fragment_test ?re n = Inr b" for n by (simp add: fragment_test_def)
  have h2: "distinct (map fst inbox_tree)" by code_simp
  have h3: "enabled out_rule" by code_simp
  have h4: "tree_get inbox_tree (sourcePath out_rule) = Some (TFolder ''Inbox'' ''Inbox'')"
    by code_simp
  have h5: "fragment_RegExp (filePattern out_rule) = Inr ?re" by code_simp
  have h6: "tree_createFolder inbox_tree (targetPath out_rule) =
      Inr (inbox_tree @ [(''Out'', FolderNode)])"
    by code_simp
  then have h6': "tree_get inbox_tree (targetPath out_rule) \<noteq> None \<or>
      (\<exists>v'. tree_createFolder inbox_tree (targetPath out_rule) = Inr v')"
    by blast
  have h7: "targetPath out_rule \<noteq> sourcePath out_rule" by code_simp
  have h8: "\<not> beneath (sourcePath out_rule) (targetPath out_rule)" by code_simp
  have h9: "length inbox_tree + 2 * length (targetPath out_rule) + longest inbox_tree + 4 \<le> 40"
    by code_simp
  have h10: "executeMoveRule 40 eager_host settings0 out_rule (start inbox_tree) =
      Some (Fulfilled, ?w1)"
    by code_simp
  then have h10': "executeMoveRule 40 (tree_host fragment_RegExp fragment_test first_come) settings0
      out_rule (start inbox_tree) = Some (Fulfilled, ?w1)"
    by (simp add: eager_host_def)
  have h11: "\<forall>(p, e) \<in> set inbox_tree. e \<noteq> FolderNode \<longrightarrow> beneath (sourcePath out_rule) p \<longrightarrow>
              fragment_test ?re (basename p) = Inr True \<longrightarrow>
              RenameFulfilled (TFile (basename p) p) (targetPath out_rule @ ''/'' @ basename p)
                \<in> set (trace ?w1)"
    by code_simp
  have ev2: "executeMoveRule 40 eager_host settings0 out_rule ?w1 =
     Some (Fulfilled,
       \<lparr>vault =
          [(''Inbox'', FolderNode), (''Inbox/b.txt'', FileNode 2), (''Inbox/Archive'', FolderNode),
           (''Out'', FolderNode), (''Out/a.pdf'', FileNode 1), (''Out/c.pdf'', FileNode 3)],
        trace =
          [CallCreateFolder ''Out'',
           CallTest (TFile ''a.pdf'' ''Inbox/a.pdf''),
           CallRename (TFile ''a.pdf'' ''Inbox/a.pdf'') ''Out/a.pdf'',
           CallTest (TFile ''b.txt'' ''Inbox/b.txt''),
           CallTest (TFile ''c.pdf'' ''Inbox/Archive/c.pdf''),
           CallRename (TFile ''c.pdf'' ''Inbox/Archive/c.pdf'') ''Out/c.pdf'',
           RenameFulfilled (TFile ''a.pdf'' ''Inbox/a.pdf'') ''Out/a.pdf'',
           Notice (MovedFile ''Out/a.pdf'' ''Out/a.pdf''),
           ConsoleLog (MovedFile ''Out/a.pdf'' ''Out/a.pdf''),
           RenameFulfilled (TFile ''c.pdf'' ''Inbox/Archive/c.pdf'') ''Out/c.pdf'',
           Notice (MovedFile ''Out/c.pdf'' ''Out/c.pdf''),
           ConsoleLog (MovedFile ''Out/c.pdf'' ''Out/c.pdf'')] @
          [CallTest (TFile ''b.txt'' ''Inbox/b.txt'')],
        inflight = []\<rparr>)"
    by code_simp
  from second_run_matches_nothing [where ru = fragment_test and regex = ?re
      and co = fragment_RegExp and sc = first_come and settings = settings0,
      OF h1 h2 h3 h4 h5 h6' h7 h8 h9 h10' h11]
  obtain es where
    "executeMoveRule 40 (tree_host fragment_RegExp fragment_test first_come) settings0 out_rule ?w1 =
       Some (Fulfilled, ?w1\<lparr>trace := trace ?w1 @ es\<rparr>)"
    "\<forall>x \<in> set es. \<exists>c. x = CallTest c \<and> fragment_test ?re (name c) = Inr False"
    by blast
  then have ex: "\<exists>es. executeMoveRule 40 eager_host settings0 out_rule ?w1 =
     Some (Fulfilled,
       \<lparr>vault =
          [(''Inbox'', FolderNode), (''Inbox/b.txt'', FileNode 2), (''Inbox/Archive'', FolderNode),
           (''Out'', FolderNode), (''Out/a.pdf'', FileNode 1), (''Out/c.pdf'', FileNode 3)],
        trace =
          [CallCreateFolder ''Out'',
           CallTest (TFile ''a.pdf'' ''Inbox/a.pdf''),
           CallRename (TFile ''a.pdf'' ''Inbox/a.pdf'') ''Out/a.pdf'',
           CallTest (TFile ''b.txt'' ''Inbox/b.txt''),
           CallTest (TFile ''c.pdf'' ''Inbox/Archive/c.pdf''),
           CallRename (TFile ''c.pdf'' ''Inbox/Archive/c.pdf'') ''Out/c.pdf'',
           RenameFulfilled (TFile ''a.pdf'' ''Inbox/a.pdf'') ''Out/a.pdf'',
           Notice (MovedFile ''Out/a.pdf'' ''Out/a.pdf''),
           ConsoleLog (MovedFile ''Out/a.pdf'' ''Out/a.pdf''),
           RenameFulfilled (TFile ''c.pdf'' ''Inbox/Archive/c.pdf'') ''Out/c.pdf'',
           Notice (MovedFile ''Out/c.pdf'' ''Out/c.pdf''),
           ConsoleLog (MovedFile ''Out/c.pdf'' ''Out/c.pdf'')] @ es,
        inflight = []\<rparr>) \<and>
     (\<forall>x \<in> set es. \<exists>c. x = CallTest c \<and> fragment_test ?re (name c) = Inr False)"
    by (intro exI [of _ es]) (simp add: eager_host_def)
  show ?thesis
    by (intro conjI allI h1 h2 h3 h4 h5 h6 h7 h8 h9 h10 ev2 ex)
qed


end
